theory Spec2Isabelle
  imports Main "HOL-Library.Word" "HOL-Library.List_Lexorder" "HOL-Library.Product_Lexorder"
begin

unbundle bit_operations_syntax

section \<open>Bytes, machine integers and faults\<close>

text \<open>
  A \<^verbatim>\<open>uint8_t\<close> is an 8-bit word and a \<^verbatim>\<open>std::string\<close> is a list of bytes; a string
  literal of the source is written \<open>bytes_of ''set''\<close>. Values of type \<^verbatim>\<open>size_t\<close> are
  natural numbers: sums of buffer sizes are bounded by the memory the process holds and stay
  below \<open>2 ^ 64\<close>, while a subtraction that can go below zero wraps around as the
  unsigned 64-bit subtraction does (\<open>sub_size_t\<close>).

  Undefined behaviour of the C++ code is a value of the model: a \<^verbatim>\<open>memcpy\<close> that leaves the
  storage it was given, a remainder by zero, the use of a variable that was never written and
  a failed \<^verbatim>\<open>assert\<close> each stop the computation with a \<open>fault\<close>.
\<close>

type_synonym u8 = "8 word"
type_synonym u32 = "32 word"
type_synonym bytes = "u8 list"

datatype fault = OutOfBounds | DivisionByZero | Indeterminate | AssertionFailed

definition bytes_of :: "string \<Rightarrow> bytes" where
  "bytes_of s = map of_char s"

definition bindE :: "fault + 'a \<Rightarrow> ('a \<Rightarrow> fault + 'b) \<Rightarrow> fault + 'b" where
  "bindE m f = (case m of Inl e \<Rightarrow> Inl e | Inr x \<Rightarrow> f x)"

definition sub_size_t :: "nat \<Rightarrow> nat \<Rightarrow> nat" where
  "sub_size_t a b = (if b \<le> a then a - b else a + 2 ^ 64 - b)"

text \<open>
  \<^verbatim>\<open>memcpy(dst + doff, src + soff, n)\<close> on two separate arrays, given as their contents: the
  copy is defined only when it stays inside both.
\<close>

definition memcpy :: "bytes \<Rightarrow> nat \<Rightarrow> bytes \<Rightarrow> nat \<Rightarrow> nat \<Rightarrow> fault + bytes" where
  "memcpy dst doff src soff n =
     (if soff + n \<le> length src \<and> doff + n \<le> length dst
      then Inr (take doff dst @ take n (drop soff src) @ drop (doff + n) dst)
      else Inl OutOfBounds)"

text \<open>The bytes a \<^verbatim>\<open>memcpy\<close> reads, when its destination is storage of the caller.\<close>

definition memread :: "bytes \<Rightarrow> nat \<Rightarrow> nat \<Rightarrow> fault + bytes" where
  "memread src soff n =
     (if soff + n \<le> length src then Inr (take n (drop soff src)) else Inl OutOfBounds)"

text \<open>Integers are copied to and from buffers in host order, little-endian here.\<close>

definition le_bytes :: "nat \<Rightarrow> 'a::len word \<Rightarrow> bytes" where
  "le_bytes n w = map (\<lambda>i. ucast (drop_bit (8 * i) w)) [0..<n]"

definition le_word :: "bytes \<Rightarrow> 'a::len word" where
  "le_word bs = foldr (\<lambda>b acc. ucast b OR push_bit 8 acc) bs 0"

section \<open>The ring buffer (buffer.h, buffer.cpp)\<close>

record Buffer =
  head :: nat
  tail :: nat
  capacity :: nat
  size_buf :: nat
  data :: bytes

text \<open>
  \<^verbatim>\<open>Buffer::Buffer(size_t capacity = 1024)\<close>. Storage obtained from \<^verbatim>\<open>new uint8_t[n]\<close> is
  not initialised: in the code the value of a byte that was never written is indeterminate.
  The model does not record which bytes were written and has a zero there. The bytes a
  buffer holds, the \<open>size\<close> bytes from \<open>head\<close> on, are bytes that \<^verbatim>\<open>append\<close> and \<^verbatim>\<open>insert\<close>
  copied there (\<open>append_ok\<close> and \<open>consume_ok\<close> below), so a read inside the size of the
  buffer gets none of these zeros. A \<^verbatim>\<open>peek\<close> that starts inside the size and ends past it
  reads storage outside the contents: what the model returns there need not be what the
  code returns, and no theorem below states the value of such a read.
\<close>

definition Buffer_init :: "nat \<Rightarrow> Buffer" where
  "Buffer_init c = \<lparr>head = 0, tail = 0, capacity = c, size_buf = 0, data = replicate c 0\<rparr>"

definition Buffer_default :: Buffer where
  "Buffer_default = Buffer_init 1024"

definition resize :: "Buffer \<Rightarrow> nat \<Rightarrow> fault + Buffer" where
  "resize b new_capacity =
     (let new_data = replicate new_capacity 0 in
      bindE
        (if head b < tail b then memcpy new_data 0 (data b) (head b) (size_buf b)
         else
           (let right = sub_size_t (capacity b) (head b) in
            bindE (memcpy new_data 0 (data b) (head b) right)
              (\<lambda>d1. memcpy d1 right (data b) 0 (tail b))))
        (\<lambda>d. Inr \<lparr>head = 0, tail = size_buf b, capacity = new_capacity,
                    size_buf = size_buf b, data = d\<rparr>))"

definition append_capacity :: "nat \<Rightarrow> nat" where
  "append_capacity n = (if n < 1024 * 1024 then n * 2 else n + 1024 * 1024)"

definition append :: "Buffer \<Rightarrow> bytes \<Rightarrow> fault + Buffer" where
  "append b src =
     (let len = length src in
      bindE
        (if len + size_buf b > capacity b
         then resize b (append_capacity (len + size_buf b)) else Inr b)
        (\<lambda>b1.
           if tail b1 + len > capacity b1 then
             (let right = sub_size_t (capacity b1) (tail b1);
                  left = sub_size_t len right in
              bindE (memcpy (data b1) (tail b1) src 0 right)
                (\<lambda>d1. bindE (memcpy d1 0 src right left)
                  (\<lambda>d2. Inr (b1\<lparr>data := d2, tail := left,
                                    size_buf := size_buf b1 + len\<rparr>))))
           else
             bindE (memcpy (data b1) (tail b1) src 0 len)
               (\<lambda>d1. Inr (b1\<lparr>data := d1, tail := tail b1 + len,
                                 size_buf := size_buf b1 + len\<rparr>))))"

definition append_u8 :: "Buffer \<Rightarrow> u8 \<Rightarrow> fault + Buffer" where
  "append_u8 b x = append b [x]"

definition append_u32 :: "Buffer \<Rightarrow> u32 \<Rightarrow> fault + Buffer" where
  "append_u32 b x = append b (le_bytes 4 x)"

definition append_i64 :: "Buffer \<Rightarrow> 64 word \<Rightarrow> fault + Buffer" where
  "append_i64 b x = append b (le_bytes 8 x)"

definition consume :: "Buffer \<Rightarrow> nat \<Rightarrow> fault + Buffer" where
  "consume b len =
     (if capacity b = 0 then Inl DivisionByZero
      else Inr (b\<lparr>head := (head b + len) mod capacity b,
                   size_buf := sub_size_t (size_buf b) len\<rparr>))"

text \<open>
  \<^verbatim>\<open>peek(dst, pos, len)\<close> returns what it stores into \<open>dst[0..len)\<close>, or \<open>None\<close> when it
  returns without writing.
\<close>

definition peek :: "Buffer \<Rightarrow> nat \<Rightarrow> nat \<Rightarrow> fault + bytes option" where
  "peek b pos len =
     (if pos \<ge> size_buf b then Inr None
      else if capacity b = 0 then Inl DivisionByZero
      else
        (let real_pos = (head b + pos) mod capacity b in
         if real_pos + len \<le> capacity b
         then bindE (memread (data b) real_pos len) (\<lambda>bs. Inr (Some bs))
         else
           (let right = sub_size_t (capacity b) real_pos;
                left = sub_size_t len right in
            bindE (memread (data b) real_pos right)
              (\<lambda>bs1. bindE (memread (data b) 0 left)
                (\<lambda>bs2. Inr (Some (bs1 @ bs2)))))))"

text \<open>
  \<^verbatim>\<open>peek_u32\<close> declares \<^verbatim>\<open>uint32_t res\<close> without a value and returns it after the call of
  \<^verbatim>\<open>peek\<close>: when \<^verbatim>\<open>peek\<close> wrote nothing the returned value is indeterminate.
\<close>

definition peek_u32 :: "Buffer \<Rightarrow> nat \<Rightarrow> fault + u32" where
  "peek_u32 b pos =
     bindE (peek b pos 4)
       (\<lambda>r. case r of None \<Rightarrow> Inl Indeterminate | Some bs \<Rightarrow> Inr (le_word bs))"

text \<open>
  \<^verbatim>\<open>get_continuous_data(pos, &data_ptr, &size)\<close>: the pointer is an offset into the storage,
  \<open>None\<close> for \<^verbatim>\<open>nullptr\<close>.
\<close>

definition get_continuous_data :: "Buffer \<Rightarrow> nat \<Rightarrow> fault + (nat option \<times> nat)" where
  "get_continuous_data b pos =
     (if pos \<ge> size_buf b then Inr (None, 0)
      else if capacity b = 0 then Inl DivisionByZero
      else
        (let real_pos = (head b + pos) mod capacity b in
         if real_pos + size_buf b \<le> capacity b
         then Inr (Some real_pos, sub_size_t (tail b) real_pos)
         else Inr (Some real_pos, sub_size_t (capacity b) real_pos)))"

definition copy_data :: "Buffer \<Rightarrow> nat \<Rightarrow> fault + bytes option" where
  "copy_data b len = peek b 0 len"

text \<open>\<^verbatim>\<open>operator[]\<close>: the offset into the storage of the byte the reference denotes.\<close>

definition index_ref :: "Buffer \<Rightarrow> nat \<Rightarrow> fault + nat" where
  "index_ref b pos =
     (if capacity b = 0 then Inl DivisionByZero else Inr ((head b + pos) mod capacity b))"

definition empty_buf :: "Buffer \<Rightarrow> bool" where
  "empty_buf b = (size_buf b = 0)"

definition insert_buf :: "Buffer \<Rightarrow> bytes \<Rightarrow> nat \<Rightarrow> fault + Buffer" where
  "insert_buf b src pos =
     (let len = length src in
      if pos \<ge> size_buf b then Inr b
      else if capacity b = 0 then Inl DivisionByZero
      else
        (let real_pos = (head b + pos) mod capacity b;
             b1 = (if pos + len > size_buf b
                   then b\<lparr>size_buf := pos + len,
                          tail := (head b + (pos + len)) mod capacity b\<rparr>
                   else b)
         in
         bindE
           (if size_buf b1 > capacity b1
            then bindE (resize b1 (size_buf b1 * 2))
                   (\<lambda>b2. bindE (index_ref b2 pos) (\<lambda>p. Inr (b2, p)))
            else Inr (b1, real_pos))
           (\<lambda>(b2, real_pos2).
              if real_pos2 + len > capacity b2 then
                (let first_part = sub_size_t (capacity b2) real_pos2;
                     second_part = sub_size_t len first_part in
                 bindE (memcpy (data b2) real_pos2 src 0 first_part)
                   (\<lambda>d1. bindE (memcpy d1 0 src first_part second_part)
                     (\<lambda>d2. Inr (b2\<lparr>data := d2\<rparr>))))
              else
                bindE (memcpy (data b2) real_pos2 src 0 len)
                  (\<lambda>d1. Inr (b2\<lparr>data := d1\<rparr>)))))"

text \<open>
  The bytes a buffer holds, in order: the byte at logical offset \<open>i\<close> is the one
  \<^verbatim>\<open>operator[]\<close> denotes.
\<close>

definition buf_bytes :: "Buffer \<Rightarrow> bytes" where
  "buf_bytes b = map (\<lambda>i. data b ! ((head b + i) mod capacity b)) [0..<size_buf b]"

text \<open>
  The representation the operations keep: \<open>tail\<close> is the write index, which \<^verbatim>\<open>append\<close>
  leaves at \<open>capacity\<close> when a write ends at the last byte of the storage.
\<close>

definition buf_inv :: "Buffer \<Rightarrow> bool" where
  "buf_inv b =
     (0 < capacity b \<and> length (data b) = capacity b \<and> head b < capacity b \<and>
      size_buf b \<le> capacity b \<and> tail b \<le> capacity b \<and>
      tail b mod capacity b = (head b + size_buf b) mod capacity b)"

text \<open>
  The states between which the operations move a buffer: a buffer as its constructor leaves
  it, \<^verbatim>\<open>append\<close>, \<^verbatim>\<open>consume\<close> of at most \<open>size\<close> bytes, \<^verbatim>\<open>resize\<close> to a positive
  capacity and \<^verbatim>\<open>insert\<close> at a position below \<open>size\<close>, each when it returns without a
  fault.
\<close>

inductive reachable :: "Buffer \<Rightarrow> bool" where
  fresh: "0 < c \<Longrightarrow> reachable (Buffer_init c)"
| by_append: "reachable b \<Longrightarrow> append b xs = Inr b' \<Longrightarrow> reachable b'"
| by_consume: "reachable b \<Longrightarrow> n \<le> size_buf b \<Longrightarrow> consume b n = Inr b' \<Longrightarrow> reachable b'"
| by_resize: "reachable b \<Longrightarrow> 0 < n \<Longrightarrow> resize b n = Inr b' \<Longrightarrow> reachable b'"
| by_insert: "reachable b \<Longrightarrow> pos < size_buf b \<Longrightarrow> insert_buf b xs pos = Inr b' \<Longrightarrow>
     reachable b'"

text \<open>
  The buffers of the server are only appended to, consumed and overwritten inside their
  size: there \<open>tail\<close> is \<open>0\<close> for the empty buffer alone.
\<close>

definition buf_inv_strict :: "Buffer \<Rightarrow> bool" where
  "buf_inv_strict b = (buf_inv b \<and> (tail b = 0 \<longrightarrow> size_buf b = 0))"

section \<open>The codec (server.cpp)\<close>

definition k_max_msg :: nat where
  "k_max_msg = 32 * 2 ^ 20"

definition k_max_args :: nat where
  "k_max_args = 200 * 1000"

text \<open>
  \<^verbatim>\<open>read_u32\<close> and \<^verbatim>\<open>read_str\<close> advance a cursor over the request; the model passes the
  bytes from the cursor to the end and returns the rest.
\<close>

definition read_u32 :: "bytes \<Rightarrow> (u32 \<times> bytes) option" where
  "read_u32 cur = (if 4 > length cur then None else Some (le_word (take 4 cur), drop 4 cur))"

definition read_str :: "bytes \<Rightarrow> nat \<Rightarrow> (bytes \<times> bytes) option" where
  "read_str cur n = (if n > length cur then None else Some (take n cur, drop n cur))"

text \<open>The loop of \<^verbatim>\<open>parse_req\<close>: \<open>k\<close> strings are still to be read.\<close>

fun parse_strs :: "nat \<Rightarrow> bytes \<Rightarrow> bytes list \<Rightarrow> (bytes list \<times> bytes) option" where
  "parse_strs 0 cur out = Some (out, cur)"
| "parse_strs (Suc k) cur out =
     (case read_u32 cur of
        None \<Rightarrow> None
      | Some (len, cur1) \<Rightarrow>
          (case read_str cur1 (unat len) of
             None \<Rightarrow> None
           | Some (s, cur2) \<Rightarrow> parse_strs k cur2 (out @ [s])))"

text \<open>\<^verbatim>\<open>parse_req\<close>: \<open>None\<close> for the return value \<open>-1\<close>.\<close>

definition parse_req :: "bytes \<Rightarrow> bytes list option" where
  "parse_req request =
     (case read_u32 request of
        None \<Rightarrow> None
      | Some (nstr, cur) \<Rightarrow>
          if unat nstr > k_max_args then None
          else
            (case parse_strs (unat nstr) cur [] of
               None \<Rightarrow> None
             | Some (out, rest) \<Rightarrow> if rest \<noteq> [] then None else Some out))"

definition ERR_UNKNOWN :: u32 where "ERR_UNKNOWN = 1"
definition ERR_TOO_BIG :: u32 where "ERR_TOO_BIG = 2"
definition ERR_BAD_TYP :: u32 where "ERR_BAD_TYP = 3"
definition ERR_BAD_ARG :: u32 where "ERR_BAD_ARG = 4"

definition TAG_NIL :: u8 where "TAG_NIL = 0"
definition TAG_ERR :: u8 where "TAG_ERR = 1"
definition TAG_STR :: u8 where "TAG_STR = 2"
definition TAG_INT :: u8 where "TAG_INT = 3"
definition TAG_DBL :: u8 where "TAG_DBL = 4"
definition TAG_ARR :: u8 where "TAG_ARR = 5"

text \<open>A \<^verbatim>\<open>double\<close> is the 64 bits of its representation, which \<^verbatim>\<open>append_dbl\<close> copies.\<close>

type_synonym dbl = "64 word"

definition append_dbl :: "Buffer \<Rightarrow> dbl \<Rightarrow> fault + Buffer" where
  "append_dbl b x = append b (le_bytes 8 x)"

definition out_nil :: "Buffer \<Rightarrow> fault + Buffer" where
  "out_nil out = append_u8 out TAG_NIL"

definition out_str :: "Buffer \<Rightarrow> bytes \<Rightarrow> fault + Buffer" where
  "out_str out s =
     bindE (append_u8 out TAG_STR)
       (\<lambda>o1. bindE (append_u32 o1 (word_of_nat (length s))) (\<lambda>o2. append o2 s))"

definition out_int :: "Buffer \<Rightarrow> 64 word \<Rightarrow> fault + Buffer" where
  "out_int out v = bindE (append_u8 out TAG_INT) (\<lambda>o1. append_i64 o1 v)"

definition out_dbl :: "Buffer \<Rightarrow> dbl \<Rightarrow> fault + Buffer" where
  "out_dbl out v = bindE (append_u8 out TAG_DBL) (\<lambda>o1. append_dbl o1 v)"

definition out_err :: "Buffer \<Rightarrow> u32 \<Rightarrow> bytes \<Rightarrow> fault + Buffer" where
  "out_err out code msg =
     bindE (append_u8 out TAG_ERR)
       (\<lambda>o1. bindE (append_u32 o1 code)
         (\<lambda>o2. bindE (append_u32 o2 (word_of_nat (length msg))) (\<lambda>o3. append o3 msg)))"

definition out_arr :: "Buffer \<Rightarrow> u32 \<Rightarrow> fault + Buffer" where
  "out_arr out n = bindE (append_u8 out TAG_ARR) (\<lambda>o1. append_u32 o1 n)"

definition out_begin_arr :: "Buffer \<Rightarrow> fault + (Buffer \<times> nat)" where
  "out_begin_arr out =
     bindE (append_u8 out TAG_ARR)
       (\<lambda>o1. bindE (append_u32 o1 0) (\<lambda>o2. Inr (o2, sub_size_t (size_buf o2) 4)))"

text \<open>
  \<^verbatim>\<open>out_end_arr\<close> asserts the tag before the count and copies the four bytes of \<open>n\<close> to
  the address of \<^verbatim>\<open>out[ctx]\<close>, in one \<^verbatim>\<open>memcpy\<close> that does not wrap.
\<close>

definition out_end_arr :: "Buffer \<Rightarrow> nat \<Rightarrow> u32 \<Rightarrow> fault + Buffer" where
  "out_end_arr out ctx n =
     bindE (index_ref out (sub_size_t ctx 1))
       (\<lambda>q. if q \<ge> length (data out) then Inl OutOfBounds
             else if data out ! q \<noteq> TAG_ARR then Inl AssertionFailed
             else bindE (index_ref out ctx)
               (\<lambda>p. bindE (memcpy (data out) p (le_bytes 4 n) 0 4)
                 (\<lambda>d. Inr (out\<lparr>data := d\<rparr>))))"

definition response_begin :: "Buffer \<Rightarrow> fault + (Buffer \<times> nat)" where
  "response_begin out = bindE (append_u32 out 0) (\<lambda>o1. Inr (o1, size_buf out))"

definition response_size :: "Buffer \<Rightarrow> nat \<Rightarrow> nat" where
  "response_size out header = sub_size_t (sub_size_t (size_buf out) header) 4"

definition response_end :: "Buffer \<Rightarrow> nat \<Rightarrow> fault + Buffer" where
  "response_end out header =
     bindE
       (if response_size out header > k_max_msg
        then bindE (resize out (header + 4))
               (\<lambda>o1. bindE (out_err o1 ERR_TOO_BIG (bytes_of ''response is too big.''))
                 (\<lambda>o2. Inr (o2, response_size o2 header)))
        else Inr (out, response_size out header))
       (\<lambda>(o3, msg_size). insert_buf o3 (le_bytes 4 (word_of_nat msg_size :: u32)) header)"

section \<open>The value store (server.cpp)\<close>

datatype vtype = T_INIT | T_STR | T_ZSET

text \<open>
  Modelled from the spec: the sorted set of \<^verbatim>\<open>zset.h\<close>, which is not among the sources. It
  is the list of its (name, score) pairs in (score ascending, name ascending) order, names
  unique; a \<^verbatim>\<open>ZNode *\<close> is the rank of the node in that list, \<open>None\<close> for \<^verbatim>\<open>NULL\<close>.
  Scores are compared as IEEE-754 doubles that are not NaN: by sign and magnitude, the two
  zeros equal.
\<close>

type_synonym ZSet = "(bytes \<times> dbl) list"

definition dbl_key :: "dbl \<Rightarrow> int" where
  "dbl_key w = (if bit w 63 then - uint (take_bit 63 w) else uint (take_bit 63 w))"

definition isnan :: "dbl \<Rightarrow> bool" where
  "isnan w = (take_bit 63 w > 0x7FF0000000000000)"

definition zkey :: "bytes \<times> dbl \<Rightarrow> int \<times> bytes" where
  "zkey p = (dbl_key (snd p), fst p)"

definition zset_lookup :: "ZSet \<Rightarrow> bytes \<Rightarrow> (bytes \<times> dbl) option" where
  "zset_lookup z name = find (\<lambda>p. fst p = name) z"

definition zset_delete :: "ZSet \<Rightarrow> bytes \<Rightarrow> ZSet" where
  "zset_delete z name = filter (\<lambda>p. fst p \<noteq> name) z"

definition zset_insert :: "ZSet \<Rightarrow> bytes \<Rightarrow> dbl \<Rightarrow> ZSet \<times> bool" where
  "zset_insert z name score =
     (case zset_lookup z name of
        Some _ \<Rightarrow> (insort_key zkey (name, score) (zset_delete z name), False)
      | None \<Rightarrow> (insort_key zkey (name, score) z, True))"

definition zset_seekge :: "ZSet \<Rightarrow> dbl \<Rightarrow> bytes \<Rightarrow> nat option" where
  "zset_seekge z score name =
     (let i = length (takeWhile (\<lambda>p. zkey p < (dbl_key score, name)) z)
      in if i < length z then Some i else None)"

definition znode_offset :: "ZSet \<Rightarrow> nat option \<Rightarrow> int \<Rightarrow> nat option" where
  "znode_offset z node offset =
     (case node of
        None \<Rightarrow> None
      | Some i \<Rightarrow>
          if 0 \<le> int i + offset \<and> int i + offset < int (length z)
          then Some (nat (int i + offset)) else None)"

record Entry =
  key :: bytes
  heap_idx :: nat
  etype :: vtype
  str :: bytes
  zset :: ZSet

text \<open>\<^verbatim>\<open>(size_t)-1\<close>, the value of \<open>heap_idx\<close> of an entry without a TTL.\<close>

definition no_heap_idx :: nat where
  "no_heap_idx = 2 ^ 64 - 1"

definition entry_new :: "vtype \<Rightarrow> Entry" where
  "entry_new t = \<lparr>key = [], heap_idx = no_heap_idx, etype = t, str = [], zset = []\<rparr>"

text \<open>
  Modelled from the spec: the hash table of \<^verbatim>\<open>hashtable.h\<close>, which is not among the
  sources, with the key comparison \<^verbatim>\<open>entry_eq\<close>. It is the list of its entries with their
  keys, keys unique; \<open>hm_put\<close> stands for a write through a pointer to an entry of the
  table.
\<close>

type_synonym HMap = "(bytes \<times> Entry) list"

definition hm_lookup :: "HMap \<Rightarrow> bytes \<Rightarrow> Entry option" where
  "hm_lookup m k = map_of m k"

definition hm_insert :: "HMap \<Rightarrow> Entry \<Rightarrow> HMap" where
  "hm_insert m e = (key e, e) # m"

definition hm_delete :: "HMap \<Rightarrow> bytes \<Rightarrow> HMap" where
  "hm_delete m k = filter (\<lambda>p. fst p \<noteq> k) m"

definition hm_put :: "HMap \<Rightarrow> bytes \<Rightarrow> Entry \<Rightarrow> HMap" where
  "hm_put m k e = map (\<lambda>p. if fst p = k then (k, e) else p) m"

definition hm_size :: "HMap \<Rightarrow> nat" where
  "hm_size m = length m"

text \<open>
  A heap item holds a deadline and a pointer to the \<open>heap_idx\<close> field of an entry; the
  model names the entry by its key. \<open>set_heap_idx\<close> is the write \<^verbatim>\<open>*ref = pos\<close>; when
  the entry has been unlinked from the table, to be destroyed, the write is not recorded.
\<close>

record HeapItem =
  val :: nat
  ref :: bytes

definition set_heap_idx :: "HMap \<Rightarrow> bytes \<Rightarrow> nat \<Rightarrow> HMap" where
  "set_heap_idx m r pos =
     (case hm_lookup m r of None \<Rightarrow> m | Some e \<Rightarrow> hm_put m r (e\<lparr>heap_idx := pos\<rparr>))"

text \<open>
  Modelled from the spec: the min-heap of \<^verbatim>\<open>heap.h\<close>, which is not among the sources:
  \<^verbatim>\<open>heap_update(arr, pos, size)\<close> sifts the item at \<open>pos\<close> towards its position and keeps
  the back-pointer of every item it moves in sync. It is \<open>heap_update_pos\<close> here: the name
  \<open>heap_update\<close> is the one of the update of the field \<open>heap\<close> of the state record below.
\<close>

definition heap_parent :: "nat \<Rightarrow> nat" where
  "heap_parent i = (i + 1) div 2 - 1"

definition heap_left :: "nat \<Rightarrow> nat" where
  "heap_left i = i * 2 + 1"

definition heap_right :: "nat \<Rightarrow> nat" where
  "heap_right i = i * 2 + 2"

function heap_up :: "HeapItem list \<Rightarrow> HMap \<Rightarrow> nat \<Rightarrow> HeapItem \<Rightarrow> HeapItem list \<times> HMap" where
  "heap_up a m pos t =
     (if pos > 0 \<and> val (a ! heap_parent pos) > val t
      then heap_up (a[pos := a ! heap_parent pos])
             (set_heap_idx m (ref (a ! heap_parent pos)) pos) (heap_parent pos) t
      else (a[pos := t], set_heap_idx m (ref t) pos))"
  by pat_completeness auto
termination
  by (relation "measure (\<lambda>(a, m, pos, t). pos)") (auto simp: heap_parent_def)

declare heap_up.simps [simp del]

definition heap_min_pos :: "HeapItem list \<Rightarrow> nat \<Rightarrow> nat \<Rightarrow> HeapItem \<Rightarrow> nat" where
  "heap_min_pos a pos len t =
     (let l = heap_left pos; r = heap_right pos;
          (min_pos, min_val) =
             (if l < len \<and> val (a ! l) < val t then (l, val (a ! l)) else (pos, val t))
      in if r < len \<and> val (a ! r) < min_val then r else min_pos)"

function heap_down :: "HeapItem list \<Rightarrow> HMap \<Rightarrow> nat \<Rightarrow> nat \<Rightarrow> HeapItem \<Rightarrow> HeapItem list \<times> HMap" where
  "heap_down a m pos len t =
     (let min_pos = heap_min_pos a pos len t in
      if min_pos = pos \<or> min_pos \<le> pos \<or> len \<le> min_pos
      then (a[pos := t], set_heap_idx m (ref t) pos)
      else heap_down (a[pos := a ! min_pos]) (set_heap_idx m (ref (a ! min_pos)) pos)
             min_pos len t)"
  by pat_completeness auto
termination
  by (relation "measure (\<lambda>(a, m, pos, len, t). len - pos)") auto

declare heap_down.simps [simp del]

definition heap_update_pos :: "HeapItem list \<Rightarrow> HMap \<Rightarrow> nat \<Rightarrow> nat \<Rightarrow> HeapItem list \<times> HMap" where
  "heap_update_pos a m pos len =
     (if pos > 0 \<and> val (a ! heap_parent pos) > val (a ! pos)
      then heap_up a m pos (a ! pos)
      else heap_down a m pos len (a ! pos))"

text \<open>\<^verbatim>\<open>heap_delete\<close> and \<^verbatim>\<open>heap_upsert\<close> of server.cpp, on the vector of heap items.\<close>

definition heap_delete :: "HeapItem list \<Rightarrow> HMap \<Rightarrow> nat \<Rightarrow> fault + (HeapItem list \<times> HMap)" where
  "heap_delete a m pos =
     (if a = [] \<or> pos \<ge> length a then Inl OutOfBounds
      else
        (let a1 = butlast (a[pos := last a]) in
         if pos < length a1 then Inr (heap_update_pos a1 m pos (length a1)) else Inr (a1, m)))"

definition heap_upsert :: "HeapItem list \<Rightarrow> HMap \<Rightarrow> nat \<Rightarrow> HeapItem \<Rightarrow> HeapItem list \<times> HMap" where
  "heap_upsert a m pos t =
     (if pos < length a then heap_update_pos (a[pos := t]) m pos (length a)
      else heap_update_pos (a @ [t]) m (length a) (length a + 1))"

section \<open>Server state and environment (server.cpp)\<close>

record Conn =
  fd :: int
  want_read :: bool
  want_write :: bool
  want_close :: bool
  incoming :: Buffer
  outgoing :: Buffer
  last_active_ms :: nat

text \<open>
  \<^verbatim>\<open>g_data\<close>. The idle list is the list of its connections from the node after the sentinel
  on; the table \<^verbatim>\<open>fd2conn\<close> holds the same connections and is not kept apart. The thread pool
  only runs destructors and the file names are constants: neither is part of the state.
\<close>

record g_data =
  db :: HMap
  idle_list :: "Conn list"
  heap :: "HeapItem list"
  aof_fd :: int
  aof_last_save_ms :: nat
  aof_buf :: Buffer
  aof_enabled :: bool
  aof_rewrite_fd :: int
  aof_rewriting :: bool
  aof_rewrite_progress :: nat

text \<open>
  What the process obtains from outside during one call: the monotonic clock in
  milliseconds, the C library functions \<^verbatim>\<open>strtoll\<close> and \<^verbatim>\<open>strtod\<close> (the value and the offset
  of the end pointer from the start of the string), the result of \<^verbatim>\<open>write\<close> on the log
  descriptor as a function of the number of bytes offered, and the results of the \<^verbatim>\<open>open\<close>
  of the temporary file, of \<^verbatim>\<open>rename\<close> and of the \<^verbatim>\<open>open\<close> of the renamed log during a
  rewrite. The contents of the files a rewrite writes are not part of the model.
\<close>

record env =
  now_ms :: nat
  strtoll :: "bytes \<Rightarrow> int \<times> nat"
  strtod :: "bytes \<Rightarrow> dbl \<times> nat"
  aof_write :: "nat \<Rightarrow> int"
  open_rewrite :: int
  rename_rv :: int
  open_renamed :: int

definition str2int :: "env \<Rightarrow> bytes \<Rightarrow> int option" where
  "str2int E s = (let (v, endp) = strtoll E s in if endp = length s then Some v else None)"

definition str2dbl :: "env \<Rightarrow> bytes \<Rightarrow> dbl option" where
  "str2dbl E s =
     (let (v, endp) = strtod E s in if endp = length s \<and> \<not> isnan v then Some v else None)"

section \<open>TTL (server.cpp)\<close>

definition entry_set_ttl :: "env \<Rightarrow> g_data \<Rightarrow> Entry \<Rightarrow> int \<Rightarrow> fault + g_data" where
  "entry_set_ttl E s ent ttl_ms =
     (if ttl_ms < 0 \<and> heap_idx ent \<noteq> no_heap_idx then
        bindE (heap_delete (heap s) (db s) (heap_idx ent))
          (\<lambda>(a, m). Inr (s\<lparr>heap := a, db := set_heap_idx m (key ent) no_heap_idx\<rparr>))
      else if ttl_ms \<ge> 0 then
        (let expire_at = (now_ms E + nat ttl_ms) mod 2 ^ 64;
             item = \<lparr>val = expire_at, ref = key ent\<rparr>;
             (a, m) = heap_upsert (heap s) (db s) (heap_idx ent) item
         in Inr (s\<lparr>heap := a, db := m\<rparr>))
      else Inr s)"

text \<open>
  \<^verbatim>\<open>entry_del\<close>: the entry leaves the heap; its destructor, run here or in the thread pool,
  changes nothing of the state.
\<close>

definition entry_del :: "env \<Rightarrow> g_data \<Rightarrow> Entry \<Rightarrow> fault + g_data" where
  "entry_del E s ent = entry_set_ttl E s ent (- 1)"

section \<open>Commands (server.cpp)\<close>

text \<open>
  Every command function reads \<open>cmd[1]\<close> and the arguments after it; \<^verbatim>\<open>do_request\<close>
  calls it only with a vector of the length the command has.
\<close>

definition do_get :: "g_data \<Rightarrow> bytes list \<Rightarrow> Buffer \<Rightarrow> fault + Buffer" where
  "do_get s cmd out =
     (case hm_lookup (db s) (cmd ! 1) of
        None \<Rightarrow> out_nil out
      | Some ent \<Rightarrow>
          if etype ent \<noteq> T_STR then out_err out ERR_BAD_TYP (bytes_of ''not a string value'')
          else out_str out (str ent))"

definition do_set :: "g_data \<Rightarrow> bytes list \<Rightarrow> Buffer \<Rightarrow> fault + (g_data \<times> Buffer)" where
  "do_set s cmd out =
     (case hm_lookup (db s) (cmd ! 1) of
        Some ent \<Rightarrow>
          if etype ent \<noteq> T_STR
          then bindE (out_err out ERR_BAD_TYP (bytes_of ''a non-string value exists''))
                 (\<lambda>o1. Inr (s, o1))
          else bindE (out_nil out)
                 (\<lambda>o1. Inr (s\<lparr>db := hm_put (db s) (cmd ! 1) (ent\<lparr>str := cmd ! 2\<rparr>)\<rparr>, o1))
      | None \<Rightarrow>
          (let ent = (entry_new T_STR)\<lparr>key := cmd ! 1, str := cmd ! 2\<rparr> in
           bindE (out_nil out) (\<lambda>o1. Inr (s\<lparr>db := hm_insert (db s) ent\<rparr>, o1))))"

definition do_del :: "env \<Rightarrow> g_data \<Rightarrow> bytes list \<Rightarrow> Buffer \<Rightarrow> fault + (g_data \<times> Buffer)" where
  "do_del E s cmd out =
     (case hm_lookup (db s) (cmd ! 1) of
        Some ent \<Rightarrow>
          bindE (entry_del E (s\<lparr>db := hm_delete (db s) (cmd ! 1)\<rparr>) ent)
            (\<lambda>s1. bindE (out_int out 1) (\<lambda>o1. Inr (s1, o1)))
      | None \<Rightarrow> bindE (out_int out 0) (\<lambda>o1. Inr (s, o1)))"

definition do_expire :: "env \<Rightarrow> g_data \<Rightarrow> bytes list \<Rightarrow> Buffer \<Rightarrow> fault + (g_data \<times> Buffer)" where
  "do_expire E s cmd out =
     (case str2int E (cmd ! 2) of
        None \<Rightarrow> bindE (out_err out ERR_BAD_ARG (bytes_of ''expect int64'')) (\<lambda>o1. Inr (s, o1))
      | Some ttl_ms \<Rightarrow>
          (case hm_lookup (db s) (cmd ! 1) of
             Some ent \<Rightarrow>
               bindE (entry_set_ttl E s ent ttl_ms)
                 (\<lambda>s1. bindE (out_int out 1) (\<lambda>o1. Inr (s1, o1)))
           | None \<Rightarrow> bindE (out_int out 0) (\<lambda>o1. Inr (s, o1))))"

definition do_ttl :: "env \<Rightarrow> g_data \<Rightarrow> bytes list \<Rightarrow> Buffer \<Rightarrow> fault + Buffer" where
  "do_ttl E s cmd out =
     (case hm_lookup (db s) (cmd ! 1) of
        None \<Rightarrow> out_int out (- 2)
      | Some ent \<Rightarrow>
          if heap_idx ent = no_heap_idx then out_int out (- 1)
          else if heap_idx ent \<ge> length (heap s) then Inl OutOfBounds
          else
            (let expire_at = val (heap s ! heap_idx ent) in
             out_int out (if expire_at > now_ms E then word_of_nat (expire_at - now_ms E) else 0)))"

definition do_keys :: "g_data \<Rightarrow> Buffer \<Rightarrow> fault + Buffer" where
  "do_keys s out =
     bindE (out_arr out (word_of_nat (hm_size (db s))))
       (\<lambda>o1. fold (\<lambda>p r. bindE r (\<lambda>o2. out_str o2 (key (snd p)))) (db s) (Inr o1))"

definition do_zadd :: "env \<Rightarrow> g_data \<Rightarrow> bytes list \<Rightarrow> Buffer \<Rightarrow> fault + (g_data \<times> Buffer)" where
  "do_zadd E s cmd out =
     (case str2dbl E (cmd ! 2) of
        None \<Rightarrow> bindE (out_err out ERR_BAD_ARG (bytes_of ''expect float'')) (\<lambda>o1. Inr (s, o1))
      | Some score \<Rightarrow>
          (case hm_lookup (db s) (cmd ! 1) of
             None \<Rightarrow>
               (let (z, added) = zset_insert [] (cmd ! 3) score;
                    ent = (entry_new T_ZSET)\<lparr>key := cmd ! 1, zset := z\<rparr> in
                bindE (out_int out (if added then 1 else 0))
                  (\<lambda>o1. Inr (s\<lparr>db := hm_insert (db s) ent\<rparr>, o1)))
           | Some ent \<Rightarrow>
               if etype ent \<noteq> T_ZSET
               then bindE (out_err out ERR_BAD_TYP (bytes_of ''expect zset'')) (\<lambda>o1. Inr (s, o1))
               else
                 (let (z, added) = zset_insert (zset ent) (cmd ! 3) score in
                  bindE (out_int out (if added then 1 else 0))
                    (\<lambda>o1. Inr (s\<lparr>db := hm_put (db s) (cmd ! 1) (ent\<lparr>zset := z\<rparr>)\<rparr>, o1)))))"

text \<open>
  \<^verbatim>\<open>expect_zset\<close>: \<open>None\<close> for \<^verbatim>\<open>NULL\<close>; a key that does not exist gives the empty set
  \<^verbatim>\<open>k_empty_zset\<close>.
\<close>

definition k_empty_zset :: ZSet where
  "k_empty_zset = []"

definition expect_zset :: "g_data \<Rightarrow> bytes \<Rightarrow> ZSet option" where
  "expect_zset s k =
     (case hm_lookup (db s) k of
        None \<Rightarrow> Some k_empty_zset
      | Some ent \<Rightarrow> if etype ent = T_ZSET then Some (zset ent) else None)"

definition do_zrem :: "g_data \<Rightarrow> bytes list \<Rightarrow> Buffer \<Rightarrow> fault + (g_data \<times> Buffer)" where
  "do_zrem s cmd out =
     (case expect_zset s (cmd ! 1) of
        None \<Rightarrow> bindE (out_err out ERR_BAD_TYP (bytes_of ''expect zset'')) (\<lambda>o1. Inr (s, o1))
      | Some z \<Rightarrow>
          (case zset_lookup z (cmd ! 2) of
             Some znode \<Rightarrow>
               bindE (out_int out 1)
                 (\<lambda>o1. Inr (s\<lparr>db := (case hm_lookup (db s) (cmd ! 1) of
                                          None \<Rightarrow> db s
                                        | Some ent \<Rightarrow>
                                            hm_put (db s) (cmd ! 1)
                                              (ent\<lparr>zset := zset_delete z (cmd ! 2)\<rparr>))\<rparr>, o1))
           | None \<Rightarrow> bindE (out_int out 0) (\<lambda>o1. Inr (s, o1))))"

definition do_zscore :: "g_data \<Rightarrow> bytes list \<Rightarrow> Buffer \<Rightarrow> fault + Buffer" where
  "do_zscore s cmd out =
     (case expect_zset s (cmd ! 1) of
        None \<Rightarrow> out_err out ERR_BAD_TYP (bytes_of ''expect zset'')
      | Some z \<Rightarrow>
          (case zset_lookup z (cmd ! 2) of
             Some znode \<Rightarrow> out_dbl out (snd znode)
           | None \<Rightarrow> out_nil out))"

text \<open>The output loop of \<^verbatim>\<open>do_zquery\<close>; it returns the buffer and the final \<open>n\<close>.\<close>

function zquery_loop :: "ZSet \<Rightarrow> nat option \<Rightarrow> int \<Rightarrow> int \<Rightarrow> Buffer \<Rightarrow> fault + (Buffer \<times> int)" where
  "zquery_loop z znode n limit out =
     (case znode of
        None \<Rightarrow> Inr (out, n)
      | Some i \<Rightarrow>
          if n < limit \<and> i < length z then
            bindE (out_str out (fst (z ! i)))
              (\<lambda>o1. bindE (out_dbl o1 (snd (z ! i)))
                (\<lambda>o2. zquery_loop z (znode_offset z (Some i) 1) (n + 2) limit o2))
          else Inr (out, n))"
  by pat_completeness auto
termination
  by (relation "measure (\<lambda>(z, znode, n, limit, out). nat (limit - n))") auto

declare zquery_loop.simps [simp del]

definition do_zquery :: "env \<Rightarrow> g_data \<Rightarrow> bytes list \<Rightarrow> Buffer \<Rightarrow> fault + Buffer" where
  "do_zquery E s cmd out =
     (case str2dbl E (cmd ! 2) of
        None \<Rightarrow> out_err out ERR_BAD_ARG (bytes_of ''expect fp number'')
      | Some score \<Rightarrow>
          (case (str2int E (cmd ! 4), str2int E (cmd ! 5)) of
             (Some offset, Some limit) \<Rightarrow>
               (case expect_zset s (cmd ! 1) of
                  None \<Rightarrow> out_err out ERR_BAD_TYP (bytes_of ''expect zset'')
                | Some z \<Rightarrow>
                    if limit \<le> 0 then out_arr out 0
                    else
                      (let znode = znode_offset z (zset_seekge z score (cmd ! 3)) offset in
                       bindE (out_begin_arr out)
                         (\<lambda>(o1, ctx). bindE (zquery_loop z znode 0 limit o1)
                           (\<lambda>(o2, n). out_end_arr o2 ctx (word_of_int n)))))
           | _ \<Rightarrow> out_err out ERR_BAD_ARG (bytes_of ''expect int'')))"

section \<open>The append-only file (server.cpp)\<close>

definition aof_write_command :: "Buffer \<Rightarrow> bytes list \<Rightarrow> fault + Buffer" where
  "aof_write_command buf cmd =
     (if cmd = [] then Inr buf
      else
        bindE (append_u32 buf (word_of_nat (length cmd)))
          (\<lambda>b1. fold (\<lambda>s r. bindE r (\<lambda>b2. bindE (append_u32 b2 (word_of_nat (length s)))
                                          (\<lambda>b3. append b3 s)))
                  cmd (Inr b1)))"

definition aof_flush_and_sync :: "env \<Rightarrow> g_data \<Rightarrow> fault + g_data" where
  "aof_flush_and_sync E s =
     (if \<not> aof_enabled s \<or> empty_buf (aof_buf s) \<or> aof_fd s < 0 then Inr s
      else
        bindE (get_continuous_data (aof_buf s) 0)
          (\<lambda>(data_ptr, data_size).
             (let rv = aof_write E data_size in
              if rv < 0 then Inr s
              else
                bindE (consume (aof_buf s) (nat rv))
                  (\<lambda>b. Inr (if sub_size_t (now_ms E) (aof_last_save_ms s) > 1000
                             then s\<lparr>aof_buf := b, aof_last_save_ms := now_ms E\<rparr>
                             else s\<lparr>aof_buf := b\<rparr>)))))"

text \<open>
  \<^verbatim>\<open>aof_rewrite\<close> with \<^verbatim>\<open>aof_rewrite_do\<close> and \<^verbatim>\<open>aof_rewrite_finish\<close>, which it calls one
  after the other: the result \<open>-1\<close> or \<open>0\<close> and the state. What \<^verbatim>\<open>aof_rewrite_do\<close> writes
  goes to the temporary file only.
\<close>

definition aof_rewrite_finish :: "env \<Rightarrow> g_data \<Rightarrow> fault + g_data" where
  "aof_rewrite_finish E s =
     (if \<not> aof_rewriting s then Inr s
      else
        bindE (aof_flush_and_sync E
                 (if aof_rewrite_fd s \<ge> 0 then s\<lparr>aof_rewrite_fd := - 1\<rparr> else s))
          (\<lambda>s1. if rename_rv E < 0 then Inr (s1\<lparr>aof_rewriting := False\<rparr>)
                else
                  (let s2 = s1\<lparr>aof_fd := open_renamed E\<rparr>;
                       s3 = (if aof_fd s2 < 0 then s2\<lparr>aof_enabled := False\<rparr> else s2)
                   in Inr (s3\<lparr>aof_rewriting := False\<rparr>))))"

definition aof_rewrite :: "env \<Rightarrow> g_data \<Rightarrow> fault + (int \<times> g_data)" where
  "aof_rewrite E s =
     (if aof_rewriting s then Inr (- 1, s)
      else
        (let s1 = s\<lparr>aof_rewriting := True, aof_rewrite_progress := 0,
                     aof_rewrite_fd := open_rewrite E\<rparr> in
         if aof_rewrite_fd s1 < 0 then Inr (- 1, s1\<lparr>aof_rewriting := False\<rparr>)
         else bindE (aof_rewrite_finish E s1) (\<lambda>s2. Inr (0, s2))))"

definition do_aof_rewrite :: "env \<Rightarrow> g_data \<Rightarrow> Buffer \<Rightarrow> fault + (g_data \<times> Buffer)" where
  "do_aof_rewrite E s out =
     (if \<not> aof_enabled s
      then bindE (out_err out ERR_BAD_ARG (bytes_of ''AOF is not enabled'')) (\<lambda>o1. Inr (s, o1))
      else if aof_rewriting s
      then bindE (out_err out ERR_BAD_ARG (bytes_of ''AOF rewrite already in progress''))
             (\<lambda>o1. Inr (s, o1))
      else
        bindE (aof_rewrite E s)
          (\<lambda>(rv, s1).
             if rv < 0
             then bindE (out_err out ERR_UNKNOWN (bytes_of ''AOF rewrite failed''))
                    (\<lambda>o1. Inr (s1, o1))
             else bindE (out_int out 1) (\<lambda>o1. Inr (s1, o1))))"

text \<open>
  The two lines around each mutating command in \<^verbatim>\<open>do_request\<close>:
  \<^verbatim>\<open>if (g_data.aof_enabled) aof_write_command(g_data.aof_buf, cmd);\<close> before the command and
  \<^verbatim>\<open>if (g_data.aof_enabled) aof_flush_and_sync();\<close> after it.
\<close>

definition aof_log :: "g_data \<Rightarrow> bytes list \<Rightarrow> fault + g_data" where
  "aof_log s cmd =
     (if aof_enabled s
      then bindE (aof_write_command (aof_buf s) cmd) (\<lambda>b. Inr (s\<lparr>aof_buf := b\<rparr>))
      else Inr s)"

definition aof_sync :: "env \<Rightarrow> g_data \<Rightarrow> fault + g_data" where
  "aof_sync E s = (if aof_enabled s then aof_flush_and_sync E s else Inr s)"

definition read_only :: "g_data \<Rightarrow> fault + Buffer \<Rightarrow> fault + (g_data \<times> Buffer)" where
  "read_only s r = bindE r (\<lambda>o1. Inr (s, o1))"

definition do_request :: "env \<Rightarrow> g_data \<Rightarrow> bytes list \<Rightarrow> Buffer \<Rightarrow> fault + (g_data \<times> Buffer)" where
  "do_request E s cmd out =
     (if length cmd = 2 \<and> cmd ! 0 = bytes_of ''get'' then read_only s (do_get s cmd out)
      else if length cmd = 3 \<and> cmd ! 0 = bytes_of ''set'' then
        bindE (aof_log s cmd)
          (\<lambda>s1. bindE (do_set s1 cmd out)
            (\<lambda>(s2, o1). bindE (aof_sync E s2) (\<lambda>s3. Inr (s3, o1))))
      else if length cmd = 2 \<and> cmd ! 0 = bytes_of ''del'' then
        bindE (aof_log s cmd)
          (\<lambda>s1. bindE (do_del E s1 cmd out)
            (\<lambda>(s2, o1). bindE (aof_sync E s2) (\<lambda>s3. Inr (s3, o1))))
      else if length cmd = 3 \<and> cmd ! 0 = bytes_of ''pexpire'' then
        bindE (aof_log s cmd)
          (\<lambda>s1. bindE (do_expire E s1 cmd out)
            (\<lambda>(s2, o1). bindE (aof_sync E s2) (\<lambda>s3. Inr (s3, o1))))
      else if length cmd = 2 \<and> cmd ! 0 = bytes_of ''pttl'' then
        read_only s (do_ttl E s cmd out)
      else if length cmd = 1 \<and> cmd ! 0 = bytes_of ''keys'' then read_only s (do_keys s out)
      else if length cmd = 4 \<and> cmd ! 0 = bytes_of ''zadd'' then
        bindE (aof_log s cmd)
          (\<lambda>s1. bindE (do_zadd E s1 cmd out)
            (\<lambda>(s2, o1). bindE (aof_sync E s2) (\<lambda>s3. Inr (s3, o1))))
      else if length cmd = 3 \<and> cmd ! 0 = bytes_of ''zrem'' then
        bindE (aof_log s cmd)
          (\<lambda>s1. bindE (do_zrem s1 cmd out)
            (\<lambda>(s2, o1). bindE (aof_sync E s2) (\<lambda>s3. Inr (s3, o1))))
      else if length cmd = 3 \<and> cmd ! 0 = bytes_of ''zscore'' then
        read_only s (do_zscore s cmd out)
      else if length cmd = 6 \<and> cmd ! 0 = bytes_of ''zquery'' then
        read_only s (do_zquery E s cmd out)
      else if length cmd = 1 \<and> cmd ! 0 = bytes_of ''bgrewriteaof'' then do_aof_rewrite E s out
      else read_only s (out_err out ERR_UNKNOWN (bytes_of ''unknown command.'')))"

text \<open>
  The inner loop of \<^verbatim>\<open>load_aof_file\<close>, over the bytes of the file from the read position
  on: \<open>k\<close> strings are still to be read. A \<^verbatim>\<open>fread\<close> that finds too few bytes leaves the
  position at the end of the file, and its \<^verbatim>\<open>break\<close> leaves this loop.
\<close>

fun read_cmd :: "nat \<Rightarrow> bytes \<Rightarrow> bytes list \<Rightarrow> bytes list \<times> bytes" where
  "read_cmd 0 cur cmd = (cmd, cur)"
| "read_cmd (Suc k) cur cmd =
     (if length cur < 4 then (cmd, [])
      else
        (let len = unat (le_word (take 4 cur) :: u32); cur1 = drop 4 cur in
         if length cur1 < len then (cmd, [])
         else read_cmd k (drop len cur1) (cmd @ [take len cur1])))"

lemma read_cmd_length: "length (snd (read_cmd k cur cmd)) \<le> length cur"
proof (induction k arbitrary: cur cmd)
  case 0
  show ?case by simp
next
  case (Suc k)
  show ?case
    using Suc.IH[of "drop (unat (le_word (take 4 cur) :: u32)) (drop 4 cur)"
        "cmd @ [take (unat (le_word (take 4 cur) :: u32)) (drop 4 cur)]"]
    by (auto simp: Let_def)
qed

text \<open>The outer loop of \<^verbatim>\<open>load_aof_file\<close>.\<close>

function replay :: "env \<Rightarrow> g_data \<Rightarrow> bytes \<Rightarrow> fault + g_data" where
  "replay E s cur =
     (if length cur < 4 then Inr s
      else
        (let nstr = unat (le_word (take 4 cur) :: u32) in
         if nstr > k_max_args then Inr s
         else
           bindE (do_request E s (fst (read_cmd nstr (drop 4 cur) [])) Buffer_default)
             (\<lambda>(s1, out). replay E s1 (snd (read_cmd nstr (drop 4 cur) [])))))"
  by pat_completeness auto
termination
proof (relation "measure (\<lambda>(E, s, cur). length cur)")
  show "wf (measure (\<lambda>(E, s, cur). length cur))" by simp
next
  fix E :: env and s :: g_data and cur :: bytes and nstr :: nat and x :: "g_data \<times> Buffer"
    and s1 :: g_data and out :: Buffer
  assume "\<not> length cur < 4"
  moreover have "length (snd (read_cmd nstr (drop 4 cur) [])) \<le> length (drop 4 cur)"
    by (rule read_cmd_length)
  ultimately show "((E, s1, snd (read_cmd nstr (drop 4 cur) [])), E, s, cur)
      \<in> measure (\<lambda>(E, s, cur). length cur)"
    by simp
qed

declare replay.simps [simp del]

text \<open>
  \<^verbatim>\<open>load_aof_file\<close>; \<open>file\<close> is the content of the log, \<open>None\<close> when \<^verbatim>\<open>fopen\<close> fails.
\<close>

definition load_aof_file :: "env \<Rightarrow> g_data \<Rightarrow> bytes option \<Rightarrow> fault + g_data" where
  "load_aof_file E s file =
     (if \<not> aof_enabled s then Inr s
      else
        (let aof_was_enabled = aof_enabled s; s0 = s\<lparr>aof_enabled := False\<rparr> in
         case file of
           None \<Rightarrow> Inr s0
         | Some content \<Rightarrow>
             bindE (replay E s0 content) (\<lambda>s1. Inr (s1\<lparr>aof_enabled := aof_was_enabled\<rparr>))))"

section \<open>Requests and timers (server.cpp)\<close>

text \<open>
  \<^verbatim>\<open>try_one_request\<close> from the test of the length on: \<open>len\<close> is the value that
  \<^verbatim>\<open>peek_u32(0)\<close> returned. The array \<^verbatim>\<open>request\<close> comes from \<^verbatim>\<open>new uint8_t[len]\<close>: when
  \<^verbatim>\<open>peek\<close> writes nothing into it, its \<open>len\<close> bytes are indeterminate.
\<close>

definition try_one_request_body :: "env \<Rightarrow> g_data \<Rightarrow> Conn \<Rightarrow> u32 \<Rightarrow> fault + (bool \<times> g_data \<times> Conn)" where
  "try_one_request_body E s conn len =
     (if unat len > k_max_msg then Inr (False, s, conn\<lparr>want_close := True\<rparr>)
      else if 4 + unat len > size_buf (incoming conn) then Inr (False, s, conn)
      else
        bindE (peek (incoming conn) 4 (unat len))
          (\<lambda>r. bindE (case r of
                         None \<Rightarrow> if unat len = 0 then Inr [] else Inl Indeterminate
                       | Some bs \<Rightarrow> Inr bs)
            (\<lambda>request.
               case parse_req request of
                 None \<Rightarrow> Inr (False, s, conn\<lparr>want_close := True\<rparr>)
               | Some cmd \<Rightarrow>
                   bindE (response_begin (outgoing conn))
                     (\<lambda>(o1, header_pos). bindE (do_request E s cmd o1)
                       (\<lambda>(s1, o2). bindE (response_end o2 header_pos)
                         (\<lambda>o3. bindE (consume (incoming conn) (4 + unat len))
                           (\<lambda>inc. Inr (True, s1,
                               conn\<lparr>incoming := inc, outgoing := o3\<rparr>))))))))"

text \<open>\<^verbatim>\<open>try_one_request\<close>: the test of the size, then the read of the length.\<close>

definition try_one_request :: "env \<Rightarrow> g_data \<Rightarrow> Conn \<Rightarrow> fault + (bool \<times> g_data \<times> Conn)" where
  "try_one_request E s conn =
     (if size_buf (incoming conn) < 4 then Inr (False, s, conn)
      else bindE (peek_u32 (incoming conn) 0) (try_one_request_body E s conn))"

definition k_idle_timeout_ms :: nat where
  "k_idle_timeout_ms = 5 * 1000"

definition k_max_works :: nat where
  "k_max_works = 2000"

text \<open>The first loop of \<^verbatim>\<open>process_timers\<close>: \<^verbatim>\<open>conn_destroy\<close> takes a connection off the list.\<close>

fun evict_idle :: "nat \<Rightarrow> Conn list \<Rightarrow> Conn list" where
  "evict_idle now [] = []"
| "evict_idle now (conn # rest) =
     (if (last_active_ms conn + k_idle_timeout_ms) mod 2 ^ 64 \<ge> now then conn # rest
      else evict_idle now rest)"

text \<open>
  The second loop of \<^verbatim>\<open>process_timers\<close>; \<open>nworks\<close> is the counter before the iteration.
  The entry is the one whose \<open>heap_idx\<close> field the first heap item points to.
\<close>

function ttl_loop :: "env \<Rightarrow> g_data \<Rightarrow> nat \<Rightarrow> fault + g_data" where
  "ttl_loop E s nworks =
     (if heap s \<noteq> [] \<and> val (heap s ! 0) < now_ms E then
        (case hm_lookup (db s) (ref (heap s ! 0)) of
           None \<Rightarrow> Inl AssertionFailed
         | Some ent \<Rightarrow>
             bindE (entry_del E (s\<lparr>db := hm_delete (db s) (ref (heap s ! 0))\<rparr>) ent)
               (\<lambda>s1. if nworks \<ge> k_max_works then Inr s1 else ttl_loop E s1 (nworks + 1)))
      else Inr s)"
  by pat_completeness auto
termination
  by (relation "measure (\<lambda>(E, s, nworks). k_max_works + 1 - nworks)") auto

declare ttl_loop.simps [simp del]

definition process_timers :: "env \<Rightarrow> g_data \<Rightarrow> fault + g_data" where
  "process_timers E s =
     ttl_loop E (s\<lparr>idle_list := evict_idle (now_ms E) (idle_list s)\<rparr>) 0"

section \<open>Properties of the ring buffer\<close>

lemma bindE_Inr [simp]: "bindE (Inr x) f = f x" by (simp add: bindE_def)
lemma bindE_Inl [simp]: "bindE (Inl e) f = Inl e" by (simp add: bindE_def)
lemma bindE_eq_Inr: "bindE m f = Inr y \<longleftrightarrow> (\<exists>x. m = Inr x \<and> f x = Inr y)"
  by (cases m) auto
lemma sub_size_t_le [simp]: "b \<le> a \<Longrightarrow> sub_size_t a b = a - b" by (simp add: sub_size_t_def)

lemma mod_ring: "x < 2 * c \<Longrightarrow> (x::nat) mod c = (if x < c then x else x - c)"
  by (simp add: mod_if le_mod_geq)

lemma buf_inv_alt:
  "buf_inv b \<longleftrightarrow>
     0 < capacity b \<and> length (data b) = capacity b \<and> head b < capacity b \<and>
     size_buf b \<le> capacity b \<and> tail b \<le> capacity b \<and>
     (tail b = head b + size_buf b \<or> tail b + capacity b = head b + size_buf b \<or>
      (tail b = capacity b \<and> head b = 0 \<and> size_buf b = 0))"
proof -
  have "tail b \<le> capacity b \<Longrightarrow> 0 < capacity b \<Longrightarrow>
     tail b mod capacity b = (if tail b < capacity b then tail b else 0)"
    by auto
  moreover have "head b < capacity b \<Longrightarrow> size_buf b \<le> capacity b \<Longrightarrow>
     (head b + size_buf b) mod capacity b =
       (if head b + size_buf b < capacity b then head b + size_buf b
        else head b + size_buf b - capacity b)"
    by (rule mod_ring) arith
  ultimately show ?thesis
    unfolding buf_inv_def by (auto split: if_splits)
qed

lemma memcpy_length: "memcpy dst doff src soff n = Inr d \<Longrightarrow> length d = length dst"
  by (auto simp: memcpy_def split: if_splits)

lemma memcpy_Inr:
  "soff + n \<le> length src \<Longrightarrow> doff + n \<le> length dst \<Longrightarrow>
   memcpy dst doff src soff n = Inr (take doff dst @ take n (drop soff src) @ drop (doff + n) dst)"
  by (simp add: memcpy_def)

lemma length_buf_bytes [simp]: "length (buf_bytes b) = size_buf b"
  by (simp add: buf_bytes_def)

lemma buf_bytes_nth: "i < size_buf b \<Longrightarrow> buf_bytes b ! i = data b ! ((head b + i) mod capacity b)"
  by (simp add: buf_bytes_def)

lemma buf_bytes_window:
  assumes "buf_inv b"
  shows "buf_bytes b = take (size_buf b) (drop (head b) (data b @ data b))"
proof (rule nth_equalityI)
  show "length (buf_bytes b) = length (take (size_buf b) (drop (head b) (data b @ data b)))"
    using assms by (auto simp: buf_inv_alt)
next
  fix i assume "i < length (buf_bytes b)"
  then have i: "i < size_buf b" by simp
  from assms have h: "length (data b) = capacity b" "head b < capacity b" "size_buf b \<le> capacity b"
    by (auto simp: buf_inv_alt)
  show "buf_bytes b ! i = take (size_buf b) (drop (head b) (data b @ data b)) ! i"
  proof (cases "head b + i < capacity b")
    case True
    then have "i < capacity b - head b" by arith
    then show ?thesis using True i h by (simp add: buf_bytes_nth nth_append)
  next
    case False
    with i h have "head b + i < 2 * capacity b" by arith
    with False have "(head b + i) mod capacity b = head b + i - capacity b"
      by (simp add: mod_ring)
    moreover from False have "\<not> i < capacity b - head b" by arith
    moreover from False h have "i - (capacity b - head b) = head b + i - capacity b" by arith
    ultimately show ?thesis using i h by (simp add: buf_bytes_nth nth_append)
  qed
qed

lemma resize_grow:
  assumes inv: "buf_inv b" and n: "capacity b < n"
  shows "\<exists>d. resize b n = Inr \<lparr>head = 0, tail = size_buf b, capacity = n,
              size_buf = size_buf b, data = d\<rparr> \<and> length d = n \<and>
              take (size_buf b) d = buf_bytes b"
proof (cases "head b < tail b")
  case True
  with inv have le: "head b + size_buf b \<le> capacity b"
    by (auto simp: buf_inv_alt)
  have bb: "buf_bytes b = take (size_buf b) (drop (head b) (data b))"
    using inv le by (simp add: buf_bytes_window buf_inv_alt)
  show ?thesis using True inv n le
    by (simp add: resize_def memcpy_Inr buf_inv_alt bb)
next
  case False
  with inv have c: "(size_buf b = 0 \<and> head b = tail b) \<or> tail b + capacity b = head b + size_buf b"
    by (auto simp: buf_inv_alt)
  have bb: "buf_bytes b = take (size_buf b) (drop (head b) (data b) @ data b)"
    using inv by (simp add: buf_bytes_window buf_inv_alt)
  from inv have h: "head b < capacity b" "length (data b) = capacity b" "tail b \<le> capacity b"
    by (auto simp: buf_inv_alt)
  show ?thesis using False inv n c h
    by (auto simp: resize_def memcpy_Inr bb Let_def)
qed

lemma memcpy_ok:
  assumes "soff + n \<le> length src" "doff + n \<le> length dst"
  shows "\<exists>d. memcpy dst doff src soff n = Inr d \<and> length d = length dst \<and>
     (\<forall>k < length dst. d ! k = (if doff \<le> k \<and> k < doff + n then src ! (soff + (k - doff)) else dst ! k))"
  using assms by (auto simp: memcpy_def nth_append)

lemma append_fit:
  assumes inv: "buf_inv b" and fit: "length xs + size_buf b \<le> capacity b"
  shows "\<exists>b'. append b xs = Inr b' \<and> buf_inv b' \<and> buf_bytes b' = buf_bytes b @ xs \<and>
           capacity b' = capacity b \<and> head b' = head b \<and>
           size_buf b' = size_buf b + length xs \<and>
           (tail b + length xs \<le> capacity b \<longrightarrow> tail b' = tail b + length xs) \<and>
           (0 < length xs \<longrightarrow> 0 < tail b')"
proof (cases "tail b + length xs > capacity b")
  case True
  define right where "right = capacity b - tail b"
  define left where "left = length xs - right"
  from inv have h: "0 < capacity b" "length (data b) = capacity b" "head b < capacity b"
      "size_buf b \<le> capacity b" "tail b \<le> capacity b"
    by (auto simp: buf_inv_alt)
  from inv True fit have t: "tail b = head b + size_buf b \<or> (tail b = capacity b \<and> head b = 0 \<and> size_buf b = 0)"
    by (auto simp: buf_inv_alt)
  have a1: "0 + right \<le> length xs" "tail b + right \<le> length (data b)"
    using True h by (auto simp: right_def)
  from memcpy_ok[OF a1] obtain d1 where d1: "memcpy (data b) (tail b) xs 0 right = Inr d1"
     "length d1 = length (data b)"
     "\<forall>k < length (data b). d1 ! k = (if tail b \<le> k \<and> k < tail b + right then xs ! (0 + (k - tail b)) else data b ! k)"
    by blast
  have a2: "right + left \<le> length xs" "0 + left \<le> length d1"
    using True h fit t d1(2) by (auto simp: right_def left_def)
  from memcpy_ok[OF a2] obtain d2 where d2: "memcpy d1 0 xs right left = Inr d2"
     "length d2 = length d1"
     "\<forall>k < length d1. d2 ! k = (if 0 \<le> k \<and> k < 0 + left then xs ! (right + (k - 0)) else d1 ! k)"
    by blast
  let ?b' = "b\<lparr>data := d2, tail := left, size_buf := size_buf b + length xs\<rparr>"
  have ap: "append b xs = Inr ?b'"
    using True fit h d1(1) d2(1) by (simp add: append_def Let_def right_def left_def)
  have inv': "buf_inv ?b'"
    using True fit h t d2(2) d1(2) by (auto simp: buf_inv_alt right_def left_def)
  have "buf_bytes ?b' = buf_bytes b @ xs"
  proof (rule nth_equalityI)
    show "length (buf_bytes ?b') = length (buf_bytes b @ xs)" by simp
  next
    fix i assume "i < length (buf_bytes ?b')"
    then have i: "i < size_buf b + length xs" by simp
    define p where "p = (head b + i) mod capacity b"
    from i fit h have "head b + i < 2 * capacity b" by arith
    then have m: "p = (if head b + i < capacity b then head b + i else head b + i - capacity b)"
      unfolding p_def by (rule mod_ring)
    have lt: "p < capacity b" using h by (simp add: p_def)
    have e2: "d2 ! p = (if p < left then xs ! (right + p) else d1 ! p)"
      using d2(3) lt d1(2) h(2) by simp
    have e1: "d1 ! p = (if tail b \<le> p \<and> p < tail b + right then xs ! (p - tail b) else data b ! p)"
      using d1(3) lt h(2) by simp
    have "buf_bytes ?b' ! i = d2 ! p" using i by (simp add: buf_bytes_nth p_def)
    also have "\<dots> = (if i < size_buf b then data b ! p else xs ! (i - size_buf b))"
      using i fit h t True m unfolding e2 e1 right_def left_def
      by (auto intro!: arg_cong[where f="nth xs"])
    also have "\<dots> = (buf_bytes b @ xs) ! i"
      by (simp add: nth_append buf_bytes_nth p_def)
    finally show "buf_bytes ?b' ! i = (buf_bytes b @ xs) ! i" .
  qed
  moreover have "0 < left" using True h by (simp add: left_def right_def)
  ultimately show ?thesis using ap inv' True by simp
next
  case False
  from inv have h: "0 < capacity b" "length (data b) = capacity b" "head b < capacity b"
      "size_buf b \<le> capacity b" "tail b \<le> capacity b"
    by (auto simp: buf_inv_alt)
  from inv have t: "tail b = head b + size_buf b \<or> tail b + capacity b = head b + size_buf b \<or>
      (tail b = capacity b \<and> head b = 0 \<and> size_buf b = 0)"
    by (auto simp: buf_inv_alt)
  have a1: "0 + length xs \<le> length xs" "tail b + length xs \<le> length (data b)"
    using False h by auto
  from memcpy_ok[OF a1] obtain d1 where d1: "memcpy (data b) (tail b) xs 0 (length xs) = Inr d1"
     "length d1 = length (data b)"
     "\<forall>k < length (data b). d1 ! k = (if tail b \<le> k \<and> k < tail b + length xs then xs ! (0 + (k - tail b)) else data b ! k)"
    by blast
  let ?b' = "b\<lparr>data := d1, tail := tail b + length xs, size_buf := size_buf b + length xs\<rparr>"
  have ap: "append b xs = Inr ?b'"
    using False fit h d1(1) by (simp add: append_def Let_def)
  have inv': "buf_inv ?b'"
    using False fit h t d1(2) by (auto simp: buf_inv_alt)
  have "buf_bytes ?b' = buf_bytes b @ xs"
  proof (rule nth_equalityI)
    show "length (buf_bytes ?b') = length (buf_bytes b @ xs)" by simp
  next
    fix i assume "i < length (buf_bytes ?b')"
    then have i: "i < size_buf b + length xs" by simp
    define p where "p = (head b + i) mod capacity b"
    from i fit h have "head b + i < 2 * capacity b" by arith
    then have m: "p = (if head b + i < capacity b then head b + i else head b + i - capacity b)"
      unfolding p_def by (rule mod_ring)
    have lt: "p < capacity b" using h by (simp add: p_def)
    have e1: "d1 ! p = (if tail b \<le> p \<and> p < tail b + length xs then xs ! (p - tail b) else data b ! p)"
      using d1(3) lt h(2) by simp
    have "buf_bytes ?b' ! i = d1 ! p" using i by (simp add: buf_bytes_nth p_def)
    also have "\<dots> = (if i < size_buf b then data b ! p else xs ! (i - size_buf b))"
      using i fit h t False m unfolding e1
      by (auto intro!: arg_cong[where f="nth xs"])
    also have "\<dots> = (buf_bytes b @ xs) ! i"
      by (simp add: nth_append buf_bytes_nth p_def)
    finally show "buf_bytes ?b' ! i = (buf_bytes b @ xs) ! i" .
  qed
  with ap inv' show ?thesis by simp
qed

lemma resize_inv:
  assumes inv: "buf_inv b" and r: "resize b n = Inr b'" and n: "0 < n"
  shows "buf_inv b' \<and> head b' = 0 \<and> tail b' = size_buf b' \<and> capacity b' = n \<and> size_buf b' = size_buf b"
proof -
  from inv have h: "0 < capacity b" "length (data b) = capacity b" "head b < capacity b"
      "size_buf b \<le> capacity b" "tail b \<le> capacity b"
    by (auto simp: buf_inv_alt)
  from inv have t: "tail b = head b + size_buf b \<or> tail b + capacity b = head b + size_buf b \<or>
      (tail b = capacity b \<and> head b = 0 \<and> size_buf b = 0)"
    by (auto simp: buf_inv_alt)
  show ?thesis
  proof (cases "head b < tail b")
    case True
    with r obtain d where d: "memcpy (replicate n 0) 0 (data b) (head b) (size_buf b) = Inr d"
      and b': "b' = \<lparr>head = 0, tail = size_buf b, capacity = n, size_buf = size_buf b, data = d\<rparr>"
      by (auto simp: resize_def bindE_eq_Inr)
    from d have "size_buf b \<le> n" "length d = n"
      by (auto simp: memcpy_def split: if_splits)
    then show ?thesis using b' n by (simp add: buf_inv_alt)
  next
    case False
    with r h obtain d1 d where d1: "memcpy (replicate n 0) 0 (data b) (head b) (capacity b - head b) = Inr d1"
      and d: "memcpy d1 (capacity b - head b) (data b) 0 (tail b) = Inr d"
      and b': "b' = \<lparr>head = 0, tail = size_buf b, capacity = n, size_buf = size_buf b, data = d\<rparr>"
      by (auto simp: resize_def bindE_eq_Inr Let_def)
    from d1 have l1: "capacity b - head b \<le> n" "length d1 = n"
      by (auto simp: memcpy_def split: if_splits)
    from d l1 have l2: "capacity b - head b + tail b \<le> n" "length d = n"
      by (auto simp: memcpy_def split: if_splits)
    from False h t l2 have "size_buf b \<le> n" "0 < n" by arith+
    then show ?thesis using b' l2 by (simp add: buf_inv_alt)
  qed
qed

lemma consume_ok:
  assumes inv: "buf_inv b" and n: "n \<le> size_buf b"
  shows "\<exists>b'. consume b n = Inr b' \<and> buf_inv b' \<and> buf_bytes b' = drop n (buf_bytes b) \<and>
           size_buf b' = size_buf b - n \<and> capacity b' = capacity b"
proof -
  from inv have h: "0 < capacity b" "length (data b) = capacity b" "head b < capacity b"
      "size_buf b \<le> capacity b" "tail b \<le> capacity b"
    by (auto simp: buf_inv_alt)
  from inv have t: "tail b = head b + size_buf b \<or> tail b + capacity b = head b + size_buf b \<or>
      (tail b = capacity b \<and> head b = 0 \<and> size_buf b = 0)"
    by (auto simp: buf_inv_alt)
  let ?b' = "b\<lparr>head := (head b + n) mod capacity b, size_buf := size_buf b - n\<rparr>"
  have c: "consume b n = Inr ?b'" using h n by (simp add: consume_def)
  from n h have "head b + n < 2 * capacity b" by arith
  then have m: "(head b + n) mod capacity b =
      (if head b + n < capacity b then head b + n else head b + n - capacity b)"
    by (rule mod_ring)
  have inv': "buf_inv ?b'" using h t n by (auto simp: buf_inv_alt m)
  have "buf_bytes ?b' = drop n (buf_bytes b)"
  proof (rule nth_equalityI)
    show "length (buf_bytes ?b') = length (drop n (buf_bytes b))" by simp
  next
    fix i assume "i < length (buf_bytes ?b')"
    then have i: "i < size_buf b - n" by simp
    have "((head b + n) mod capacity b + i) mod capacity b = (head b + (n + i)) mod capacity b"
      by (simp add: mod_add_left_eq add.assoc)
    then show "buf_bytes ?b' ! i = drop n (buf_bytes b) ! i"
      using i n by (simp add: buf_bytes_nth)
  qed
  with c inv' show ?thesis by simp
qed

lemma peek_ok:
  assumes inv: "buf_inv b" and pos: "pos < size_buf b" and len: "pos + len \<le> size_buf b"
  shows "peek b pos len = Inr (Some (take len (drop pos (buf_bytes b))))"
proof -
  from inv have h: "0 < capacity b" "length (data b) = capacity b" "head b < capacity b"
      "size_buf b \<le> capacity b" "tail b \<le> capacity b"
    by (auto simp: buf_inv_alt)
  define p where "p = (head b + pos) mod capacity b"
  have lt: "p < capacity b" using h by (simp add: p_def)
  have nth: "\<And>i. i < len \<Longrightarrow> buf_bytes b ! (pos + i) = data b ! ((p + i) mod capacity b)"
    using len by (simp add: buf_bytes_nth p_def mod_add_left_eq add.assoc)
  have l: "length (take len (drop pos (buf_bytes b))) = len" using len by simp
  show ?thesis
  proof (cases "p + len \<le> capacity b")
    case True
    have "take len (drop p (data b)) = take len (drop pos (buf_bytes b))"
    proof (rule nth_equalityI)
      show "length (take len (drop p (data b))) = length (take len (drop pos (buf_bytes b)))"
        using True h l by simp
    next
      fix i assume "i < length (take len (drop p (data b)))"
      then have i: "i < len" by simp
      with True have "(p + i) mod capacity b = p + i" by simp
      then show "take len (drop p (data b)) ! i = take len (drop pos (buf_bytes b)) ! i"
        using i True h pos len by (simp add: nth)
    qed
    then show ?thesis using True pos h by (simp add: peek_def memread_def p_def Let_def)
  next
    case False
    have "take (capacity b - p) (drop p (data b)) @ take (len - (capacity b - p)) (data b)
          = take len (drop pos (buf_bytes b))"
    proof (rule nth_equalityI)
      show "length (take (capacity b - p) (drop p (data b)) @ take (len - (capacity b - p)) (data b))
          = length (take len (drop pos (buf_bytes b)))"
        using False h l lt len by simp
    next
      fix i assume "i < length (take (capacity b - p) (drop p (data b)) @ take (len - (capacity b - p)) (data b))"
      with False h lt len have i: "i < len" by simp
      from i len h lt have "p + i < 2 * capacity b" by arith
      then have m: "(p + i) mod capacity b = (if p + i < capacity b then p + i else p + i - capacity b)"
        by (rule mod_ring)
      show "(take (capacity b - p) (drop p (data b)) @ take (len - (capacity b - p)) (data b)) ! i
            = take len (drop pos (buf_bytes b)) ! i"
        using i False h lt pos len by (auto simp: nth m nth_append intro!: arg_cong[where f="nth (data b)"])
    qed
    then show ?thesis using False pos h lt len
      by (simp add: peek_def memread_def p_def[symmetric] Let_def)
  qed
qed

lemma buf_bytes_linear:
  "head b = 0 \<Longrightarrow> size_buf b \<le> capacity b \<Longrightarrow> length (data b) = capacity b \<Longrightarrow>
   buf_bytes b = take (size_buf b) (data b)"
  by (rule nth_equalityI) (auto simp: buf_bytes_nth)

lemma append_ok:
  assumes inv: "buf_inv b"
  shows "\<exists>b'. append b xs = Inr b' \<and> buf_inv b' \<and> buf_bytes b' = buf_bytes b @ xs \<and>
           size_buf b' = size_buf b + length xs \<and>
           (0 < length xs \<longrightarrow> 0 < tail b') \<and>
           (if length xs + size_buf b > capacity b
            then capacity b' = append_capacity (length xs + size_buf b) \<and> head b' = 0 \<and>
                 tail b' = size_buf b'
            else capacity b' = capacity b \<and> head b' = head b)"
proof (cases "length xs + size_buf b > capacity b")
  case False
  then show ?thesis using append_fit[OF inv, of xs] by auto
next
  case True
  define n where "n = append_capacity (length xs + size_buf b)"
  have n: "length xs + size_buf b \<le> n" "capacity b < n"
    using True by (auto simp: n_def append_capacity_def)
  from resize_grow[OF inv n(2)] obtain d where
    r: "resize b n = Inr \<lparr>head = 0, tail = size_buf b, capacity = n, size_buf = size_buf b, data = d\<rparr>"
    and d: "length d = n" "take (size_buf b) d = buf_bytes b"
    by blast
  let ?b1 = "\<lparr>head = 0, tail = size_buf b, capacity = n, size_buf = size_buf b, data = d\<rparr>"
  have inv1: "buf_inv ?b1" using n d by (simp add: buf_inv_alt)
  have bb1: "buf_bytes ?b1 = buf_bytes b" using n d by (simp add: buf_bytes_linear)
  have fit1: "length xs + size_buf ?b1 \<le> capacity ?b1" using n by simp
  from append_fit[OF inv1 fit1] obtain b' where
    b': "append ?b1 xs = Inr b'" "buf_inv b'" "buf_bytes b' = buf_bytes ?b1 @ xs"
        "capacity b' = n" "head b' = 0" "size_buf b' = size_buf b + length xs"
        "tail b' = size_buf b + length xs" "0 < length xs \<longrightarrow> 0 < tail b'"
    using n by auto
  have st: "append b xs = append ?b1 xs"
    using True r n by (simp add: append_def Let_def n_def[symmetric])
  show ?thesis using True b' bb1 st by (simp add: n_def)
qed

lemma memcpy_data_length:
  "memcpy dst doff src soff k = Inr d \<Longrightarrow> length d = length dst"
  by (auto simp: memcpy_def split: if_splits)

lemma insert_write_inv:
  assumes inv: "buf_inv b2"
    and w: "(if p + len > capacity b2 then
                (let first_part = sub_size_t (capacity b2) p;
                     second_part = sub_size_t len first_part in
                 bindE (memcpy (data b2) p src 0 first_part)
                   (\<lambda>d1. bindE (memcpy d1 0 src first_part second_part)
                     (\<lambda>d2. Inr (b2\<lparr>data := d2\<rparr>))))
              else
                bindE (memcpy (data b2) p src 0 len)
                  (\<lambda>d1. Inr (b2\<lparr>data := d1\<rparr>))) = Inr b'"
  shows "buf_inv b' \<and> head b' = head b2 \<and> tail b' = tail b2 \<and> size_buf b' = size_buf b2 \<and>
         capacity b' = capacity b2"
proof -
  from w obtain d where "b' = b2\<lparr>data := d\<rparr>" "length d = length (data b2)"
    by (auto simp: bindE_eq_Inr Let_def split: if_splits dest!: memcpy_data_length)
  with inv show ?thesis by (simp add: buf_inv_def)
qed

lemma insert_inv:
  assumes inv: "buf_inv b" and ins: "insert_buf b src pos = Inr b'"
  shows "buf_inv b'"
proof (cases "pos \<ge> size_buf b")
  case True
  with ins inv show ?thesis by (simp add: insert_buf_def Let_def)
next
  case False
  from inv have h: "0 < capacity b" "length (data b) = capacity b" "head b < capacity b"
      "size_buf b \<le> capacity b" "tail b \<le> capacity b"
    by (auto simp: buf_inv_alt)
  define b1 where "b1 = (if pos + length src > size_buf b
                   then b\<lparr>size_buf := pos + length src,
                          tail := (head b + (pos + length src)) mod capacity b\<rparr>
                   else b)"
  show ?thesis
  proof (cases "size_buf b1 > capacity b1")
    case True
    then have ext: "pos + length src > size_buf b" using h by (auto simp: b1_def split: if_splits)
    from ins False h True obtain b2 p where
      r: "resize b1 (size_buf b1 * 2) = Inr b2" and
      w: "(if p + length src > capacity b2 then
                (let first_part = sub_size_t (capacity b2) p;
                     second_part = sub_size_t (length src) first_part in
                 bindE (memcpy (data b2) p src 0 first_part)
                   (\<lambda>d1. bindE (memcpy d1 0 src first_part second_part)
                     (\<lambda>d2. Inr (b2\<lparr>data := d2\<rparr>))))
              else
                bindE (memcpy (data b2) p src 0 (length src))
                  (\<lambda>d1. Inr (b2\<lparr>data := d1\<rparr>))) = Inr b'"
      unfolding insert_buf_def Let_def b1_def[symmetric]
      by (auto simp: bindE_eq_Inr)
    from r obtain d where b2: "b2 = \<lparr>head = 0, tail = size_buf b1, capacity = size_buf b1 * 2,
        size_buf = size_buf b1, data = d\<rparr>" and "length d = size_buf b1 * 2"
      by (auto simp: resize_def bindE_eq_Inr Let_def split: if_splits dest!: memcpy_data_length)
    with True have "buf_inv b2" by (auto simp: buf_inv_alt)
    from insert_write_inv[OF this w] show ?thesis by simp
  next
    case F2: False
    have inv1: "buf_inv b1"
      using inv h F2 unfolding b1_def by (auto simp: buf_inv_def)
    from ins False h F2 have
      w: "(if (head b + pos) mod capacity b + length src > capacity b1 then
                (let first_part = sub_size_t (capacity b1) ((head b + pos) mod capacity b);
                     second_part = sub_size_t (length src) first_part in
                 bindE (memcpy (data b1) ((head b + pos) mod capacity b) src 0 first_part)
                   (\<lambda>d1. bindE (memcpy d1 0 src first_part second_part)
                     (\<lambda>d2. Inr (b1\<lparr>data := d2\<rparr>))))
              else
                bindE (memcpy (data b1) ((head b + pos) mod capacity b) src 0 (length src))
                  (\<lambda>d1. Inr (b1\<lparr>data := d1\<rparr>))) = Inr b'"
      unfolding insert_buf_def Let_def b1_def[symmetric]
      by (simp)
    from insert_write_inv[OF inv1 w] show ?thesis by simp
  qed
qed

lemma get_continuous_data_0:
  assumes "buf_inv_strict b" "0 < size_buf b"
  shows "get_continuous_data b 0 = Inr (Some (head b), min (size_buf b) (capacity b - head b))"
  using assms unfolding buf_inv_strict_def buf_inv_alt get_continuous_data_def
  by (auto simp: min_def Let_def)

lemma Buffer_init_inv: "0 < c \<Longrightarrow> buf_inv (Buffer_init c)"
  by (simp add: buf_inv_def Buffer_init_def)

lemma reachable_inv: "reachable b \<Longrightarrow> buf_inv b"
proof (induction rule: reachable.induct)
  case (fresh c)
  then show ?case by (rule Buffer_init_inv)
next
  case (by_append b xs b')
  then show ?case using append_ok[of b xs] by auto
next
  case (by_consume b n b')
  then show ?case using consume_ok[of b n] by auto
next
  case (by_resize b n b')
  then show ?case using resize_inv[of b n b'] by auto
next
  case (by_insert b pos xs b')
  then show ?case using insert_inv[of b xs pos b'] by auto
qed

subsection \<open>The invariant of the representation\<close>

text \<open>Three states of a buffer, used as examples below.\<close>

definition full_buffer :: Buffer where
  "full_buffer =
     \<lparr>head = 0, tail = 1024, capacity = 1024, size_buf = 1024, data = replicate 1024 7\<rparr>"

definition wrapped_buffer :: Buffer where
  "wrapped_buffer = \<lparr>head = 2, tail = 1, capacity = 4, size_buf = 3, data = [5, 2, 3, 4]\<rparr>"

definition small_buffer :: Buffer where
  "small_buffer = \<lparr>head = 2, tail = 3, capacity = 4, size_buf = 1, data = [1, 2, 3, 0]\<rparr>"

definition tail_end_buffer :: Buffer where
  "tail_end_buffer =
     \<lparr>head = 1019, tail = 1023, capacity = 1024, size_buf = 4, data = replicate 1023 7 @ [0]\<rparr>"

lemma append_default_full: "append Buffer_default (replicate 1024 7) = Inr full_buffer"
  by (simp add: append_def Buffer_default_def Buffer_init_def memcpy_def full_buffer_def)

lemma reachable_wrapped: "reachable wrapped_buffer"
proof -
  have 1: "append (Buffer_init 4) [1, 2, 3] =
      Inr \<lparr>head = 0, tail = 3, capacity = 4, size_buf = 3, data = [1, 2, 3, 0]\<rparr>"
    by (simp add: append_def Buffer_init_def memcpy_def)
  have 2: "consume \<lparr>head = 0, tail = 3, capacity = 4, size_buf = 3, data = [1, 2, 3, 0]\<rparr> 2
      = Inr small_buffer"
    by (simp add: consume_def small_buffer_def)
  have 3: "append small_buffer [4, 5] = Inr wrapped_buffer"
    by (simp add: append_def memcpy_def wrapped_buffer_def small_buffer_def)
  have "reachable (Buffer_init 4)" by (rule fresh) simp
  from by_append[OF this 1]
  have "reachable \<lparr>head = 0, tail = 3, capacity = 4, size_buf = 3, data = [1, 2, 3, 0]\<rparr>" .
  from by_consume[OF this _ 2] have "reachable small_buffer" by simp
  from by_append[OF this 3] show ?thesis .
qed

text \<open>
  Claim C6, as the code has it. Every buffer state reached from a fresh buffer of positive
  capacity by \<^verbatim>\<open>append\<close>, \<^verbatim>\<open>consume\<close> of at most \<open>size\<close> bytes, \<^verbatim>\<open>insert\<close> at a position
  below \<open>size\<close> and \<^verbatim>\<open>resize\<close> to a positive capacity (each returning without a fault)
  satisfies: \<open>head < capacity\<close>, \<open>size \<le> capacity\<close>, and \<open>tail \<le> capacity\<close> with \<open>tail\<close>
  congruent to \<open>head + size\<close> modulo \<open>capacity\<close>. The write index is not reduced modulo
  the capacity: it may be equal to it.
\<close>

theorem ring_invariant:
  "reachable b \<Longrightarrow>
     head b < capacity b \<and> tail b \<le> capacity b \<and>
     tail b mod capacity b = (head b + size_buf b) mod capacity b \<and>
     size_buf b \<le> capacity b"
  using reachable_inv[of b] by (simp add: buf_inv_def)

theorem ring_invariant_witness:
  "reachable wrapped_buffer \<and>
     head wrapped_buffer < capacity wrapped_buffer \<and>
     tail wrapped_buffer \<le> capacity wrapped_buffer \<and>
     tail wrapped_buffer mod capacity wrapped_buffer =
       (head wrapped_buffer + size_buf wrapped_buffer) mod capacity wrapped_buffer \<and>
     size_buf wrapped_buffer \<le> capacity wrapped_buffer"
  using ring_invariant[OF reachable_wrapped] reachable_wrapped by simp

text \<open>
  Claim C6 as stated fails: appending 1024 bytes to a buffer of the default capacity 1024
  ends the write at the last byte of the storage and leaves \<open>tail = 1024\<close>, while
  \<open>(head + size) mod capacity = 0\<close>.
\<close>

theorem ring_invariant_counterexample:
  "append Buffer_default (replicate 1024 7) = Inr full_buffer \<and>
   tail full_buffer \<noteq> (head full_buffer + size_buf full_buffer) mod capacity full_buffer"
  using append_default_full by (simp add: full_buffer_def)

subsection \<open>Growth of the storage\<close>

text \<open>
  Claim C7. When \<^verbatim>\<open>append\<close> of \<open>len\<close> bytes finds \<open>size + len > capacity\<close>, it resizes
  to \<open>2 * (size + len)\<close> when \<open>size + len\<close> is below 1 MiB and to \<open>size + len\<close> plus 1
  MiB otherwise; after the resize \<open>head = 0\<close>, \<open>tail = size\<close> and the buffer holds the same
  bytes in the same order; after the whole \<^verbatim>\<open>append\<close> the capacity is the new one,
  \<open>head = 0\<close>, \<open>tail = size\<close> and the bytes are the old ones followed by the appended ones.
\<close>

theorem append_growth:
  assumes "buf_inv b" and "size_buf b + length xs > capacity b"
  shows "\<exists>b1 b'.
     resize b (append_capacity (length xs + size_buf b)) = Inr b1 \<and>
     head b1 = 0 \<and> tail b1 = size_buf b1 \<and> buf_bytes b1 = buf_bytes b \<and>
     capacity b1 =
       (if size_buf b + length xs < 1024 * 1024 then 2 * (size_buf b + length xs)
        else size_buf b + length xs + 1024 * 1024) \<and>
     append b xs = Inr b' \<and> capacity b' = capacity b1 \<and>
     head b' = 0 \<and> tail b' = size_buf b' \<and> size_buf b' = size_buf b + length xs \<and>
     buf_bytes b' = buf_bytes b @ xs"
proof -
  define n where "n = append_capacity (length xs + size_buf b)"
  from assms have n: "capacity b < n" "size_buf b \<le> n"
    by (auto simp: n_def append_capacity_def buf_inv_def)
  from resize_grow[OF assms(1) n(1)] obtain d where
    r: "resize b n = Inr \<lparr>head = 0, tail = size_buf b, capacity = n, size_buf = size_buf b,
          data = d\<rparr>"
    and d: "length d = n" "take (size_buf b) d = buf_bytes b"
    by blast
  have bb: "buf_bytes \<lparr>head = 0, tail = size_buf b, capacity = n, size_buf = size_buf b,
      data = d\<rparr> = buf_bytes b"
    using n d by (simp add: buf_bytes_linear)
  have cap: "n = (if size_buf b + length xs < 1024 * 1024 then 2 * (size_buf b + length xs)
        else size_buf b + length xs + 1024 * 1024)"
    by (simp add: n_def append_capacity_def add.commute)
  from append_ok[OF assms(1), of xs] assms(2) obtain b' where
    "append b xs = Inr b'" "buf_bytes b' = buf_bytes b @ xs"
    "size_buf b' = size_buf b + length xs" "capacity b' = n" "head b' = 0"
    "tail b' = size_buf b'"
    by (auto simp: n_def add.commute)
  with r bb cap show ?thesis unfolding n_def[symmetric] by auto
qed

theorem append_growth_witness:
  "buf_inv small_buffer \<and>
   size_buf small_buffer + length [4, 5, 6, 7 :: u8] > capacity small_buffer \<and>
   append small_buffer [4, 5, 6, 7] =
     Inr \<lparr>head = 0, tail = 5, capacity = 10, size_buf = 5,
          data = [3, 4, 5, 6, 7] @ replicate 5 0\<rparr> \<and>
   buf_bytes small_buffer = [3]"
proof -
  have i: "buf_inv small_buffer" by (simp add: buf_inv_def small_buffer_def)
  have g: "size_buf small_buffer + length [4, 5, 6, 7 :: u8] > capacity small_buffer"
    by (simp add: small_buffer_def)
  from append_growth[OF i g] obtain b' where "append small_buffer [4, 5, 6, 7] = Inr b'"
    "capacity b' = 10" "head b' = 0" "tail b' = size_buf b'"
    by (auto simp: small_buffer_def)
  moreover have "append small_buffer [4, 5, 6, 7] =
     Inr \<lparr>head = 0, tail = 5, capacity = 10, size_buf = 5,
          data = [3, 4, 5, 6, 7] @ replicate 5 0\<rparr>"
    by (simp add: append_def small_buffer_def resize_def memcpy_def append_capacity_def Let_def)
  moreover have "buf_bytes small_buffer = [3]"
    by (simp add: buf_bytes_def small_buffer_def)
  ultimately show ?thesis using i g by simp
qed

subsection \<open>The contiguous span\<close>

text \<open>
  Claim C8 at a buffer the code reaches: 1023 bytes appended to a buffer of the default
  capacity and 1019 of them consumed, so that the four bytes held lie at offsets 1019 to 1022
  of the storage. For \<open>pos = 2\<close> the claim gives the length \<open>min (4 - 2) (1024 - 1021) = 2\<close>;
  \<^verbatim>\<open>get_continuous_data\<close> tests \<open>real_pos + size \<le> capacity\<close> with the whole size, takes
  the other branch and returns \<open>capacity - real_pos = 3\<close>, one byte more than the buffer
  holds from there.
\<close>

theorem get_continuous_data_overshoot:
  "bindE (append Buffer_default (replicate 1023 7)) (\<lambda>b. consume b 1019) = Inr tail_end_buffer \<and>
   get_continuous_data tail_end_buffer 2 = Inr (Some 1021, 3) \<and>
   min (size_buf tail_end_buffer - 2)
       (capacity tail_end_buffer - (head tail_end_buffer + 2) mod capacity tail_end_buffer) = 2"
  by (simp add: append_def Buffer_default_def Buffer_init_def memcpy_def consume_def
      tail_end_buffer_def get_continuous_data_def Let_def)

section \<open>Faults of the server\<close>

text \<open>A result that is not the use of an indeterminate value.\<close>

definition no_indet :: "fault + 'a \<Rightarrow> bool" where
  "no_indet r = (r \<noteq> Inl Indeterminate)"

lemma no_indet_Inr [simp]: "no_indet (Inr x)" by (simp add: no_indet_def)
lemma no_indet_Inl [simp]: "no_indet (Inl e) \<longleftrightarrow> e \<noteq> Indeterminate" by (simp add: no_indet_def)

lemma no_indet_bindE:
  "no_indet m \<Longrightarrow> (\<And>x. no_indet (f x)) \<Longrightarrow> no_indet (bindE m f)"
  by (cases m) (auto simp: no_indet_def)

lemma no_indet_if: "(c \<Longrightarrow> no_indet a) \<Longrightarrow> (\<not> c \<Longrightarrow> no_indet b) \<Longrightarrow> no_indet (if c then a else b)"
  by simp

lemma no_indet_case_prod: "(\<And>a b. no_indet (f a b)) \<Longrightarrow> no_indet (case_prod f x)"
  by (cases x) simp

lemma no_indet_case_option:
  "no_indet a \<Longrightarrow> (\<And>x. no_indet (f x)) \<Longrightarrow> no_indet (case_option a f x)"
  by (cases x) simp_all

lemma no_indet_Let: "(\<And>x. no_indet (f x)) \<Longrightarrow> no_indet (Let v f)"
  by simp

lemmas no_indet_struct = no_indet_bindE no_indet_if no_indet_case_prod no_indet_case_option
  no_indet_Let

lemma no_indet_memcpy [simp]: "no_indet (memcpy dst doff src soff n)"
  by (simp add: memcpy_def)

lemma no_indet_memread [simp]: "no_indet (memread src soff n)"
  by (simp add: memread_def)

lemma no_indet_resize [simp]: "no_indet (resize b n)"
  unfolding resize_def by (intro no_indet_struct; simp)

lemma no_indet_append [simp]: "no_indet (append b xs)"
  unfolding append_def by (intro no_indet_struct; simp)

lemma no_indet_consume [simp]: "no_indet (consume b n)"
  by (simp add: consume_def)

lemma no_indet_peek [simp]: "no_indet (peek b pos len)"
  unfolding peek_def by (intro no_indet_struct; simp)

lemma no_indet_index_ref [simp]: "no_indet (index_ref b pos)"
  by (simp add: index_ref_def)

lemma no_indet_insert_buf [simp]: "no_indet (insert_buf b xs pos)"
  unfolding insert_buf_def by (intro no_indet_struct; simp)

lemma no_indet_get_continuous_data [simp]: "no_indet (get_continuous_data b pos)"
  by (simp add: get_continuous_data_def Let_def)

lemma no_indet_append_int [simp]:
  "no_indet (append_u8 b x)" "no_indet (append_u32 b w)" "no_indet (append_i64 b v)"
  "no_indet (append_dbl b v)"
  by (simp_all add: append_u8_def append_u32_def append_i64_def append_dbl_def)

lemma no_indet_out_nil [simp]: "no_indet (out_nil b)"
  by (simp add: out_nil_def)

lemma no_indet_out_str [simp]: "no_indet (out_str b s)"
  unfolding out_str_def by (intro no_indet_struct; simp)

lemma no_indet_out_int [simp]: "no_indet (out_int b v)"
  unfolding out_int_def by (intro no_indet_struct; simp)

lemma no_indet_out_dbl [simp]: "no_indet (out_dbl b v)"
  unfolding out_dbl_def by (intro no_indet_struct; simp)

lemma no_indet_out_err [simp]: "no_indet (out_err b c m)"
  unfolding out_err_def by (intro no_indet_struct; simp)

lemma no_indet_out_arr [simp]: "no_indet (out_arr b w)"
  unfolding out_arr_def by (intro no_indet_struct; simp)

lemma no_indet_out_begin_arr [simp]: "no_indet (out_begin_arr b)"
  unfolding out_begin_arr_def by (intro no_indet_struct; simp)

lemma no_indet_out_end_arr [simp]: "no_indet (out_end_arr b ctx w)"
  unfolding out_end_arr_def by (intro no_indet_struct; simp)

lemma no_indet_response_begin [simp]: "no_indet (response_begin b)"
  unfolding response_begin_def by (intro no_indet_struct; simp)

lemma no_indet_response_end [simp]: "no_indet (response_end b h)"
  unfolding response_end_def by (intro no_indet_struct; simp)

lemma no_indet_heap_delete [simp]: "no_indet (heap_delete a m pos)"
  by (simp add: heap_delete_def Let_def)

lemma no_indet_entry_set_ttl [simp]: "no_indet (entry_set_ttl E s ent ttl)"
  unfolding entry_set_ttl_def by (intro no_indet_struct; simp)

lemma no_indet_entry_del [simp]: "no_indet (entry_del E s ent)"
  by (simp add: entry_del_def)

lemma no_indet_fold:
  assumes "\<And>x b. no_indet (f x b)" and "no_indet r"
  shows "no_indet (fold (\<lambda>x r. bindE r (f x)) xs r)"
  using assms(2)
proof (induction xs arbitrary: r)
  case Nil
  then show ?case by simp
next
  case (Cons x xs)
  show ?case using Cons.prems assms(1) by (auto intro!: Cons.IH no_indet_bindE)
qed

lemma no_indet_aof_write_command [simp]: "no_indet (aof_write_command b cmd)"
  unfolding aof_write_command_def
  by (intro no_indet_struct no_indet_fold; simp)

lemma no_indet_zquery_loop [simp]: "no_indet (zquery_loop z znode n limit out)"
proof (induction z znode n limit out rule: zquery_loop.induct)
  case (1 z znode n limit out)
  show ?case
  proof (cases znode)
    case None
    then show ?thesis by (subst zquery_loop.simps) simp
  next
    case (Some i)
    show ?thesis
    proof (cases "n < limit \<and> i < length z")
      case True
      show ?thesis
        by (subst zquery_loop.simps) (use Some True in \<open>auto intro!: no_indet_bindE 1\<close>)
    next
      case False
      then show ?thesis by (subst zquery_loop.simps) (use Some in auto)
    qed
  qed
qed

lemma no_indet_do_get [simp]: "no_indet (do_get s cmd out)"
  unfolding do_get_def by (intro no_indet_struct; simp)
lemma no_indet_do_set [simp]: "no_indet (do_set s cmd out)"
  unfolding do_set_def by (intro no_indet_struct; simp)
lemma no_indet_do_del [simp]: "no_indet (do_del E s cmd out)"
  unfolding do_del_def by (intro no_indet_struct; simp)
lemma no_indet_do_expire [simp]: "no_indet (do_expire E s cmd out)"
  unfolding do_expire_def by (intro no_indet_struct; simp)
lemma no_indet_do_ttl [simp]: "no_indet (do_ttl E s cmd out)"
  unfolding do_ttl_def by (intro no_indet_struct; simp)
lemma no_indet_do_keys [simp]: "no_indet (do_keys s out)"
  unfolding do_keys_def by (intro no_indet_struct no_indet_fold[where f="\<lambda>p o2. out_str o2 (key (snd p))"]; simp)
lemma no_indet_do_zadd [simp]: "no_indet (do_zadd E s cmd out)"
  unfolding do_zadd_def by (intro no_indet_struct; simp)
lemma no_indet_do_zrem [simp]: "no_indet (do_zrem s cmd out)"
  unfolding do_zrem_def by (intro no_indet_struct; simp)
lemma no_indet_do_zscore [simp]: "no_indet (do_zscore s cmd out)"
  unfolding do_zscore_def by (intro no_indet_struct; simp)
lemma no_indet_do_zquery [simp]: "no_indet (do_zquery E s cmd out)"
  unfolding do_zquery_def by (intro no_indet_struct; simp)

lemma no_indet_aof_flush_and_sync [simp]: "no_indet (aof_flush_and_sync E s)"
  unfolding aof_flush_and_sync_def by (intro no_indet_struct; simp)

lemma no_indet_aof_rewrite_finish [simp]: "no_indet (aof_rewrite_finish E s)"
  unfolding aof_rewrite_finish_def by (intro no_indet_struct; simp)

lemma no_indet_aof_rewrite [simp]: "no_indet (aof_rewrite E s)"
  unfolding aof_rewrite_def by (intro no_indet_struct; simp)

lemma no_indet_do_aof_rewrite [simp]: "no_indet (do_aof_rewrite E s out)"
  unfolding do_aof_rewrite_def by (intro no_indet_struct; simp)

lemma no_indet_aof_log [simp]: "no_indet (aof_log s cmd)"
  unfolding aof_log_def by (intro no_indet_struct; simp)

lemma no_indet_aof_sync [simp]: "no_indet (aof_sync E s)"
  unfolding aof_sync_def by (intro no_indet_struct; simp)

lemma no_indet_read_only [simp]: "no_indet r \<Longrightarrow> no_indet (read_only s r)"
  unfolding read_only_def by (intro no_indet_struct; simp)

lemma no_indet_do_request [simp]: "no_indet (do_request E s cmd out)"
  unfolding do_request_def by (intro no_indet_struct; simp)

lemma peek_inside: "pos < size_buf b \<Longrightarrow> peek b pos len \<noteq> Inr None"
  by (auto simp: peek_def Let_def bindE_def memread_def split: sum.splits)

lemma no_indet_peek_u32_0: "4 \<le> size_buf b \<Longrightarrow> no_indet (peek_u32 b 0)"
  using peek_inside[of 0 b 4] no_indet_peek[of b 0 4]
  by (cases "peek b 0 4") (auto simp: peek_u32_def split: option.splits)

lemma no_indet_run_request:
  "no_indet (case parse_req request of
               None \<Rightarrow> Inr (False, s, conn\<lparr>want_close := True\<rparr>)
             | Some cmd \<Rightarrow>
                 bindE (response_begin (outgoing conn))
                   (\<lambda>(o1, header_pos). bindE (do_request E s cmd o1)
                     (\<lambda>(s1, o2). bindE (response_end o2 header_pos)
                       (\<lambda>o3. bindE (consume (incoming conn) n)
                         (\<lambda>inc. Inr (True, s1, conn\<lparr>incoming := inc, outgoing := o3\<rparr>))))))"
  by (intro no_indet_struct; simp)

lemma no_indet_try_one_request_body: "no_indet (try_one_request_body E s conn len)"
proof (cases "unat len > k_max_msg \<or> 4 + unat len > size_buf (incoming conn)")
  case True
  then show ?thesis by (auto simp: try_one_request_body_def)
next
  case False
  then have fit: "4 + unat len \<le> size_buf (incoming conn)" by simp
  show ?thesis
  proof (cases "peek (incoming conn) 4 (unat len)")
    case (Inl e)
    with no_indet_peek[of "incoming conn" 4 "unat len"] False show ?thesis
      by (simp add: try_one_request_body_def)
  next
    case (Inr r)
    show ?thesis
    proof (cases r)
      case None
      with Inr peek_inside[of 4 "incoming conn" "unat len"] fit have "unat len = 0"
        by (cases "unat len = 0") auto
      with None Inr False no_indet_run_request[where request="[]" and s=s and conn=conn and E=E and n="4 + unat len"] show ?thesis
        by (simp add: try_one_request_body_def)
    next
      case (Some bs)
      with Inr False no_indet_run_request[where request=bs and s=s and conn=conn and E=E and n="4 + unat len"] show ?thesis
        by (simp add: try_one_request_body_def)
    qed
  qed
qed

lemma no_indet_try_one_request: "no_indet (try_one_request E s conn)"
  unfolding try_one_request_def
  by (intro no_indet_struct no_indet_peek_u32_0 no_indet_try_one_request_body; simp)

subsection \<open>The response cap\<close>

lemma resize_shrink_fault:
  assumes inv: "buf_inv b" and n: "n < size_buf b"
  shows "resize b n = Inl OutOfBounds"
proof -
  from inv have h: "0 < capacity b" "length (data b) = capacity b" "head b < capacity b"
      "size_buf b \<le> capacity b" "tail b \<le> capacity b"
    by (auto simp: buf_inv_alt)
  from inv have t: "tail b = head b + size_buf b \<or> tail b + capacity b = head b + size_buf b \<or>
      (tail b = capacity b \<and> head b = 0 \<and> size_buf b = 0)"
    by (auto simp: buf_inv_alt)
  show ?thesis
  proof (cases "head b < tail b")
    case True
    then show ?thesis using n by (simp add: resize_def memcpy_def)
  next
    case False
    with t n h have s: "capacity b - head b + tail b = size_buf b" by arith
    show ?thesis
    proof (cases "capacity b - head b \<le> n")
      case True
      with s n have "\<not> capacity b - head b + tail b \<le> n" by arith
      then show ?thesis using False True h
        by (simp add: resize_def memcpy_def Let_def)
    next
      case F: False
      then show ?thesis using False h by (simp add: resize_def memcpy_def Let_def)
    qed
  qed
qed

text \<open>
  Claim C3 on the code. When the body of a response is larger than \<open>k_max_msg\<close>,
  \<^verbatim>\<open>response_end\<close> calls \<^verbatim>\<open>out.resize(header + 4)\<close>. \<^verbatim>\<open>Buffer::resize\<close> does not truncate: it
  allocates \<open>header + 4\<close> bytes and copies all \<open>size\<close> bytes of the buffer into them, which
  is more than the new storage holds. The call ends in a write outside the storage, for every
  buffer that satisfies the invariant and every header position of a response begun in it;
  no \<open>ERR(TOO_BIG)\<close> replaces the body.
\<close>

theorem response_end_oversized:
  assumes "buf_inv out" and "header + 4 \<le> size_buf out"
    and "response_size out header > k_max_msg"
  shows "response_end out header = Inl OutOfBounds"
proof -
  from assms(2,3) have "header + 4 < size_buf out"
    by (simp add: response_size_def k_max_msg_def)
  from resize_shrink_fault[OF assms(1) this] assms(3) show ?thesis
    by (simp add: response_end_def)
qed

lemma upt_0_4: "[0..<4] = [0, 1, 2, 3]"
  by (simp add: upt_conv_Cons)

lemma upt_0_8: "[0..<8] = [0, 1, 2, 3, 4, 5, 6, 7]"
  by (simp add: upt_conv_Cons)

lemma le_bytes_4:
  "le_bytes 4 w = [ucast w, ucast (drop_bit 8 w), ucast (drop_bit 16 w), ucast (drop_bit 24 w)]"
  by (simp add: le_bytes_def upt_0_4)

lemma le_bytes_8:
  "le_bytes 8 w = [ucast w, ucast (drop_bit 8 w), ucast (drop_bit 16 w), ucast (drop_bit 24 w),
     ucast (drop_bit 32 w), ucast (drop_bit 40 w), ucast (drop_bit 48 w), ucast (drop_bit 56 w)]"
  by (simp add: le_bytes_def upt_0_8)

text \<open>
  A buffer with such a response: a fresh output buffer after \<^verbatim>\<open>response_begin\<close> and a body
  of 32 MiB and one byte.
\<close>

definition oversized_out :: Buffer where
  "oversized_out =
     \<lparr>head = 0, tail = 33554437, capacity = 34603013, size_buf = 33554437,
      data = [0, 0, 0, 0] @ replicate 33554433 7 @ replicate 1048576 0\<rparr>"

lemma oversized_out_reached:
  "bindE (response_begin Buffer_default) (\<lambda>(o1, header). append o1 (replicate 33554433 7))
     = Inr oversized_out"
  by (simp add: response_begin_def append_u32_def le_bytes_4 append_def Buffer_default_def
      Buffer_init_def memcpy_def resize_def append_capacity_def oversized_out_def Let_def)

theorem response_end_oversized_witness:
  "buf_inv oversized_out \<and> 0 + 4 \<le> size_buf oversized_out \<and>
   response_size oversized_out 0 > k_max_msg \<and>
   response_end oversized_out 0 = Inl OutOfBounds"
proof -
  have i: "buf_inv oversized_out" by (simp add: buf_inv_def oversized_out_def)
  have h: "0 + 4 \<le> size_buf oversized_out" by (simp add: oversized_out_def)
  have r: "response_size oversized_out 0 > k_max_msg"
    by (simp add: response_size_def oversized_out_def k_max_msg_def)
  from response_end_oversized[OF i h r] i h r show ?thesis by simp
qed

text \<open>A buffer that holds the four bytes of the number 1 across the end of its storage.\<close>

definition header_buffer :: Buffer where
  "header_buffer = \<lparr>head = 2, tail = 1, capacity = 5, size_buf = 4, data = [0, 9, 1, 0, 0]\<rparr>"

lemma peek_u32_in_range:
  "buf_inv b \<Longrightarrow> pos + 4 \<le> size_buf b \<Longrightarrow>
   peek_u32 b pos = Inr (le_word (take 4 (drop pos (buf_bytes b))))"
  using peek_ok[of b pos 4] by (simp add: peek_u32_def)

lemma peek_u32_out_of_range:
  "size_buf b \<le> pos \<Longrightarrow> peek b pos 4 = Inr None \<and> peek_u32 b pos = Inl Indeterminate"
  by (simp add: peek_u32_def peek_def)

lemma try_one_request_short:
  "size_buf (incoming conn) < 4 \<Longrightarrow> try_one_request E s conn = Inr (False, s, conn)"
  by (simp add: try_one_request_def)

lemma try_one_request_header:
  assumes "buf_inv (incoming conn)" and "4 \<le> size_buf (incoming conn)"
  shows "peek_u32 (incoming conn) 0 = Inr (le_word (take 4 (buf_bytes (incoming conn))))"
    and "try_one_request E s conn =
           try_one_request_body E s conn (le_word (take 4 (buf_bytes (incoming conn))))"
proof -
  from peek_u32_in_range[OF assms(1), of 0] assms(2)
  show p: "peek_u32 (incoming conn) 0 = Inr (le_word (take 4 (buf_bytes (incoming conn))))"
    by simp
  from assms(2) p show "try_one_request E s conn =
      try_one_request_body E s conn (le_word (take 4 (buf_bytes (incoming conn))))"
    by (simp add: try_one_request_def)
qed

text \<open>
  Claim C10. When \<open>pos + 4 \<le> size\<close>, \<^verbatim>\<open>peek_u32(pos)\<close> is the \<^verbatim>\<open>uint32_t\<close> made of the four
  bytes at logical offset \<open>pos\<close>. When \<open>pos \<ge> size\<close>, \<^verbatim>\<open>peek\<close> writes nothing and the value
  \<^verbatim>\<open>peek_u32\<close> returns is indeterminate: the model gives the fault \<open>Indeterminate\<close> in
  place of a value. At the call site, \<^verbatim>\<open>try_one_request\<close> returns \<open>false\<close> and leaves the
  connection as it is when the incoming buffer holds fewer than four bytes; when it holds
  four or more, \<^verbatim>\<open>peek_u32(0)\<close> returns the number made of the first four bytes of the
  buffer and the function goes on with that number as the length. No call of
  \<^verbatim>\<open>try_one_request\<close> ends in the fault \<open>Indeterminate\<close>.
\<close>

theorem peek_u32_defined:
  "(buf_inv b \<and> pos + 4 \<le> size_buf b \<longrightarrow>
      peek_u32 b pos = Inr (le_word (take 4 (drop pos (buf_bytes b))))) \<and>
   (size_buf b \<le> pos \<longrightarrow> peek b pos 4 = Inr None \<and> peek_u32 b pos = Inl Indeterminate) \<and>
   (size_buf (incoming conn) < 4 \<longrightarrow> try_one_request E s conn = Inr (False, s, conn)) \<and>
   (buf_inv (incoming conn) \<and> 4 \<le> size_buf (incoming conn) \<longrightarrow>
      peek_u32 (incoming conn) 0 = Inr (le_word (take 4 (buf_bytes (incoming conn)))) \<and>
      try_one_request E s conn =
        try_one_request_body E s conn (le_word (take 4 (buf_bytes (incoming conn))))) \<and>
   try_one_request E s conn \<noteq> Inl Indeterminate"
  using peek_u32_in_range[of b pos] peek_u32_out_of_range[of b pos]
    try_one_request_short[where conn=conn and E=E and s=s]
    try_one_request_header(1)[where conn=conn]
    try_one_request_header(2)[where conn=conn and E=E and s=s]
    no_indet_try_one_request[of E s conn]
  by (simp add: no_indet_def)

lemma header_buffer_bytes: "buf_bytes header_buffer = [1, 0, 0, 0]"
  by (simp add: buf_bytes_def header_buffer_def upt_0_4)

section \<open>Replies and the log\<close>

text \<open>
  \<open>extends b xs b'\<close>: the buffer \<open>b'\<close> holds the bytes of \<open>b\<close> followed by \<open>xs\<close>, and its
  storage either is the one of \<open>b\<close> with the same read index or was allocated anew, with
  the read index \<open>0\<close>.
\<close>

definition extends :: "Buffer \<Rightarrow> bytes \<Rightarrow> Buffer \<Rightarrow> bool" where
  "extends b xs b' =
     (buf_inv b' \<and> buf_bytes b' = buf_bytes b @ xs \<and>
      (head b' = 0 \<or> head b' = head b \<and> capacity b' = capacity b))"

lemma extends_inv: "extends b xs b' \<Longrightarrow> buf_inv b'"
  by (simp add: extends_def)

lemma extends_bytes: "extends b xs b' \<Longrightarrow> buf_bytes b' = buf_bytes b @ xs"
  by (simp add: extends_def)

lemma extends_trans: "extends b xs b1 \<Longrightarrow> extends b1 ys b2 \<Longrightarrow> extends b (xs @ ys) b2"
  by (auto simp: extends_def)

lemma extends_refl: "buf_inv b \<Longrightarrow> extends b [] b"
  by (simp add: extends_def)

lemma append_extends:
  assumes "buf_inv b"
  shows "\<exists>b'. append b xs = Inr b' \<and> extends b xs b'"
  using append_ok[OF assms, of xs] by (auto simp: extends_def split: if_splits)

text \<open>The serialised values of a response: the tag, then the payload.\<close>

definition enc_nil :: bytes where
  "enc_nil = [TAG_NIL]"

definition enc_str :: "bytes \<Rightarrow> bytes" where
  "enc_str s = TAG_STR # le_bytes 4 (word_of_nat (length s) :: u32) @ s"

definition enc_int :: "64 word \<Rightarrow> bytes" where
  "enc_int v = TAG_INT # le_bytes 8 v"

definition enc_dbl :: "dbl \<Rightarrow> bytes" where
  "enc_dbl v = TAG_DBL # le_bytes 8 v"

definition enc_err :: "u32 \<Rightarrow> bytes \<Rightarrow> bytes" where
  "enc_err code msg =
     TAG_ERR # le_bytes 4 code @ le_bytes 4 (word_of_nat (length msg) :: u32) @ msg"

definition enc_arr :: "u32 \<Rightarrow> bytes" where
  "enc_arr n = TAG_ARR # le_bytes 4 n"

lemma out_nil_ok:
  assumes "buf_inv out"
  shows "\<exists>o'. out_nil out = Inr o' \<and> extends out enc_nil o'"
  using append_extends[OF assms, of "[TAG_NIL]"] by (simp add: out_nil_def append_u8_def enc_nil_def)

lemma out_str_ok:
  assumes "buf_inv out"
  shows "\<exists>o'. out_str out s = Inr o' \<and> extends out (enc_str s) o'"
proof -
  from append_extends[OF assms, of "[TAG_STR]"] obtain o1 where
    1: "append out [TAG_STR] = Inr o1" "extends out [TAG_STR] o1" by blast
  from append_extends[OF extends_inv[OF 1(2)], of "le_bytes 4 (word_of_nat (length s) :: u32)"]
  obtain o2 where 2: "append o1 (le_bytes 4 (word_of_nat (length s) :: u32)) = Inr o2"
    "extends o1 (le_bytes 4 (word_of_nat (length s) :: u32)) o2" by blast
  from append_extends[OF extends_inv[OF 2(2)], of s]
  obtain o3 where 3: "append o2 s = Inr o3" "extends o2 s o3" by blast
  from extends_trans[OF extends_trans[OF 1(2) 2(2)] 3(2)] 1(1) 2(1) 3(1)
  show ?thesis by (simp add: out_str_def append_u8_def append_u32_def enc_str_def)
qed

lemma out_int_ok:
  assumes "buf_inv out"
  shows "\<exists>o'. out_int out v = Inr o' \<and> extends out (enc_int v) o'"
proof -
  from append_extends[OF assms, of "[TAG_INT]"] obtain o1 where
    1: "append out [TAG_INT] = Inr o1" "extends out [TAG_INT] o1" by blast
  from append_extends[OF extends_inv[OF 1(2)], of "le_bytes 8 v"]
  obtain o2 where 2: "append o1 (le_bytes 8 v) = Inr o2" "extends o1 (le_bytes 8 v) o2" by blast
  from extends_trans[OF 1(2) 2(2)] 1(1) 2(1)
  show ?thesis by (simp add: out_int_def append_u8_def append_i64_def enc_int_def)
qed

lemma out_dbl_ok:
  assumes "buf_inv out"
  shows "\<exists>o'. out_dbl out v = Inr o' \<and> extends out (enc_dbl v) o'"
proof -
  from append_extends[OF assms, of "[TAG_DBL]"] obtain o1 where
    1: "append out [TAG_DBL] = Inr o1" "extends out [TAG_DBL] o1" by blast
  from append_extends[OF extends_inv[OF 1(2)], of "le_bytes 8 v"]
  obtain o2 where 2: "append o1 (le_bytes 8 v) = Inr o2" "extends o1 (le_bytes 8 v) o2" by blast
  from extends_trans[OF 1(2) 2(2)] 1(1) 2(1)
  show ?thesis by (simp add: out_dbl_def append_u8_def append_dbl_def enc_dbl_def)
qed

lemma out_arr_ok:
  assumes "buf_inv out"
  shows "\<exists>o'. out_arr out n = Inr o' \<and> extends out (enc_arr n) o'"
proof -
  from append_extends[OF assms, of "[TAG_ARR]"] obtain o1 where
    1: "append out [TAG_ARR] = Inr o1" "extends out [TAG_ARR] o1" by blast
  from append_extends[OF extends_inv[OF 1(2)], of "le_bytes 4 n"]
  obtain o2 where 2: "append o1 (le_bytes 4 n) = Inr o2" "extends o1 (le_bytes 4 n) o2" by blast
  from extends_trans[OF 1(2) 2(2)] 1(1) 2(1)
  show ?thesis by (simp add: out_arr_def append_u8_def append_u32_def enc_arr_def)
qed

lemma out_err_ok:
  assumes "buf_inv out"
  shows "\<exists>o'. out_err out code msg = Inr o' \<and> extends out (enc_err code msg) o'"
proof -
  from append_extends[OF assms, of "[TAG_ERR]"] obtain o1 where
    1: "append out [TAG_ERR] = Inr o1" "extends out [TAG_ERR] o1" by blast
  from append_extends[OF extends_inv[OF 1(2)], of "le_bytes 4 code"]
  obtain o2 where 2: "append o1 (le_bytes 4 code) = Inr o2" "extends o1 (le_bytes 4 code) o2"
    by blast
  from append_extends[OF extends_inv[OF 2(2)], of "le_bytes 4 (word_of_nat (length msg) :: u32)"]
  obtain o3 where 3: "append o2 (le_bytes 4 (word_of_nat (length msg) :: u32)) = Inr o3"
    "extends o2 (le_bytes 4 (word_of_nat (length msg) :: u32)) o3" by blast
  from append_extends[OF extends_inv[OF 3(2)], of msg]
  obtain o4 where 4: "append o3 msg = Inr o4" "extends o3 msg o4" by blast
  from extends_trans[OF extends_trans[OF extends_trans[OF 1(2) 2(2)] 3(2)] 4(2)]
    1(1) 2(1) 3(1) 4(1)
  show ?thesis by (simp add: out_err_def append_u8_def append_u32_def enc_err_def)
qed

lemma append_strict:
  assumes "buf_inv_strict b"
  shows "\<exists>b'. append b xs = Inr b' \<and> buf_inv_strict b' \<and> buf_bytes b' = buf_bytes b @ xs"
proof (cases "xs = []")
  case True
  from assms have inv: "buf_inv b" by (simp add: buf_inv_strict_def)
  have fit: "length xs + size_buf b \<le> capacity b" using True inv by (simp add: buf_inv_def)
  from append_fit[OF inv fit] True assms inv show ?thesis
    by (auto simp: buf_inv_strict_def buf_inv_def)
next
  case False
  from assms have inv: "buf_inv b" by (simp add: buf_inv_strict_def)
  from append_ok[OF inv, of xs] False show ?thesis
    by (auto simp: buf_inv_strict_def)
qed

text \<open>The record of a command in the log: the number of strings, then each with its length.\<close>

definition aof_frame :: "bytes list \<Rightarrow> bytes" where
  "aof_frame cmd =
     le_bytes 4 (word_of_nat (length cmd) :: u32) @
     concat (map (\<lambda>s. le_bytes 4 (word_of_nat (length s) :: u32) @ s) cmd)"

lemma aof_fold_ok:
  assumes "buf_inv_strict b"
  shows "\<exists>b'. fold (\<lambda>s r. bindE r (\<lambda>b2. bindE (append_u32 b2 (word_of_nat (length s)))
                                          (\<lambda>b3. append b3 s))) cmd (Inr b) = Inr b' \<and>
          buf_inv_strict b' \<and>
          buf_bytes b' = buf_bytes b @
             concat (map (\<lambda>s. le_bytes 4 (word_of_nat (length s) :: u32) @ s) cmd)"
  using assms
proof (induction cmd arbitrary: b)
  case Nil
  then show ?case by simp
next
  case (Cons s cmd)
  from append_strict[OF Cons.prems, of "le_bytes 4 (word_of_nat (length s) :: u32)"]
  obtain b1 where 1: "append b (le_bytes 4 (word_of_nat (length s) :: u32)) = Inr b1"
    "buf_inv_strict b1" "buf_bytes b1 = buf_bytes b @ le_bytes 4 (word_of_nat (length s) :: u32)"
    by blast
  from append_strict[OF 1(2), of s]
  obtain b2 where 2: "append b1 s = Inr b2" "buf_inv_strict b2" "buf_bytes b2 = buf_bytes b1 @ s"
    by blast
  from Cons.IH[OF 2(2)] 1 2 show ?case
    by (auto simp: append_u32_def)
qed

lemma aof_write_command_ok:
  assumes "buf_inv_strict b" and "cmd \<noteq> []"
  shows "\<exists>b'. aof_write_command b cmd = Inr b' \<and> buf_inv_strict b' \<and>
          buf_bytes b' = buf_bytes b @ aof_frame cmd"
proof -
  from append_strict[OF assms(1), of "le_bytes 4 (word_of_nat (length cmd) :: u32)"]
  obtain b1 where 1: "append b (le_bytes 4 (word_of_nat (length cmd) :: u32)) = Inr b1"
    "buf_inv_strict b1" "buf_bytes b1 = buf_bytes b @ le_bytes 4 (word_of_nat (length cmd) :: u32)"
    by blast
  from aof_fold_ok[OF 1(2), of cmd] 1 assms(2) show ?thesis
    by (auto simp: aof_write_command_def append_u32_def aof_frame_def)
qed

lemma consume_strict:
  assumes "buf_inv_strict b" and "n \<le> size_buf b"
  shows "\<exists>b'. consume b n = Inr b' \<and> buf_inv_strict b' \<and> buf_bytes b' = drop n (buf_bytes b)"
proof -
  from assms have inv: "buf_inv b" by (simp add: buf_inv_strict_def)
  from consume_ok[OF inv assms(2)] obtain b' where
    c: "consume b n = Inr b'" "buf_inv b'" "buf_bytes b' = drop n (buf_bytes b)"
       "size_buf b' = size_buf b - n"
    by blast
  from c(1) inv have "tail b' = tail b" by (auto simp: consume_def buf_inv_def split: if_splits)
  with c assms(1) show ?thesis by (auto simp: buf_inv_strict_def)
qed

text \<open>The five commands \<^verbatim>\<open>do_request\<close> writes to the log, as it recognises them.\<close>

definition mutating :: "bytes list \<Rightarrow> bool" where
  "mutating cmd =
     (length cmd = 3 \<and> cmd ! 0 = bytes_of ''set'' \<or>
      length cmd = 2 \<and> cmd ! 0 = bytes_of ''del'' \<or>
      length cmd = 3 \<and> cmd ! 0 = bytes_of ''pexpire'' \<or>
      length cmd = 4 \<and> cmd ! 0 = bytes_of ''zadd'' \<or>
      length cmd = 3 \<and> cmd ! 0 = bytes_of ''zrem'')"

text \<open>The function \<^verbatim>\<open>do_request\<close> calls for each of them, between the two lines about the log.\<close>

definition mutating_handler :: "env \<Rightarrow> g_data \<Rightarrow> bytes list \<Rightarrow> Buffer \<Rightarrow> fault + (g_data \<times> Buffer)" where
  "mutating_handler E s cmd out =
     (if cmd ! 0 = bytes_of ''set'' then do_set s cmd out
      else if cmd ! 0 = bytes_of ''del'' then do_del E s cmd out
      else if cmd ! 0 = bytes_of ''pexpire'' then do_expire E s cmd out
      else if cmd ! 0 = bytes_of ''zadd'' then do_zadd E s cmd out
      else do_zrem s cmd out)"

lemma bytes_of_names [simp]:
  "bytes_of ''set'' \<noteq> bytes_of ''get''" "bytes_of ''del'' \<noteq> bytes_of ''get''"
  "bytes_of ''pexpire'' \<noteq> bytes_of ''set''" "bytes_of ''zrem'' \<noteq> bytes_of ''set''"
  "bytes_of ''zrem'' \<noteq> bytes_of ''pexpire''" "bytes_of ''pttl'' \<noteq> bytes_of ''del''"
  "bytes_of ''del'' \<noteq> bytes_of ''pttl''"
  by (simp_all add: bytes_of_def)

lemma entry_set_ttl_frame:
  "entry_set_ttl E s ent ttl = Inr s' \<Longrightarrow>
   aof_buf s' = aof_buf s \<and> aof_enabled s' = aof_enabled s \<and> aof_fd s' = aof_fd s"
  by (auto simp: entry_set_ttl_def bindE_eq_Inr Let_def split: if_splits prod.splits)

lemma do_set_frame:
  "do_set s cmd out = Inr (s', out') \<Longrightarrow>
   aof_buf s' = aof_buf s \<and> aof_enabled s' = aof_enabled s \<and> heap s' = heap s"
  by (auto simp: do_set_def bindE_eq_Inr Let_def split: option.splits if_splits)

lemma do_del_frame:
  "do_del E s cmd out = Inr (s', out') \<Longrightarrow> aof_buf s' = aof_buf s \<and> aof_enabled s' = aof_enabled s"
  by (auto simp: do_del_def entry_del_def bindE_eq_Inr split: option.splits
      dest!: entry_set_ttl_frame)

lemma do_expire_frame:
  "do_expire E s cmd out = Inr (s', out') \<Longrightarrow>
   aof_buf s' = aof_buf s \<and> aof_enabled s' = aof_enabled s"
  by (auto simp: do_expire_def bindE_eq_Inr split: option.splits dest!: entry_set_ttl_frame)

lemma do_zadd_frame:
  "do_zadd E s cmd out = Inr (s', out') \<Longrightarrow> aof_buf s' = aof_buf s \<and> aof_enabled s' = aof_enabled s"
  by (auto simp: do_zadd_def bindE_eq_Inr Let_def split: option.splits if_splits prod.splits)

lemma do_zrem_frame:
  "do_zrem s cmd out = Inr (s', out') \<Longrightarrow> aof_buf s' = aof_buf s \<and> aof_enabled s' = aof_enabled s"
  by (auto simp: do_zrem_def bindE_eq_Inr split: option.splits)

lemma do_set_fd: "do_set s cmd out = Inr (s', out') \<Longrightarrow> aof_fd s' = aof_fd s"
  by (auto simp: do_set_def bindE_eq_Inr Let_def split: option.splits if_splits)

lemma do_del_fd: "do_del E s cmd out = Inr (s', out') \<Longrightarrow> aof_fd s' = aof_fd s"
  by (auto simp: do_del_def entry_del_def bindE_eq_Inr split: option.splits
      dest!: entry_set_ttl_frame)

lemma do_expire_fd: "do_expire E s cmd out = Inr (s', out') \<Longrightarrow> aof_fd s' = aof_fd s"
  by (auto simp: do_expire_def bindE_eq_Inr split: option.splits dest!: entry_set_ttl_frame)

lemma do_zadd_fd: "do_zadd E s cmd out = Inr (s', out') \<Longrightarrow> aof_fd s' = aof_fd s"
  by (auto simp: do_zadd_def bindE_eq_Inr Let_def split: option.splits if_splits prod.splits)

lemma do_zrem_fd: "do_zrem s cmd out = Inr (s', out') \<Longrightarrow> aof_fd s' = aof_fd s"
  by (auto simp: do_zrem_def bindE_eq_Inr split: option.splits)

lemma mutating_handler_frame:
  assumes "mutating_handler E s1 cmd out = Inr (s2, o1)"
  shows "aof_buf s2 = aof_buf s1 \<and> aof_enabled s2 = aof_enabled s1 \<and> aof_fd s2 = aof_fd s1"
  using assms
    do_set_frame[of s1 cmd out s2 o1] do_set_fd[of s1 cmd out s2 o1]
    do_del_frame[of E s1 cmd out s2 o1] do_del_fd[of E s1 cmd out s2 o1]
    do_expire_frame[of E s1 cmd out s2 o1] do_expire_fd[of E s1 cmd out s2 o1]
    do_zadd_frame[of E s1 cmd out s2 o1] do_zadd_fd[of E s1 cmd out s2 o1]
    do_zrem_frame[of s1 cmd out s2 o1] do_zrem_fd[of s1 cmd out s2 o1]
  by (simp add: mutating_handler_def split: if_splits)

lemma do_request_mutating:
  assumes "mutating cmd"
  shows "do_request E s cmd out =
     bindE (aof_log s cmd)
       (\<lambda>s1. bindE (mutating_handler E s1 cmd out)
         (\<lambda>(s2, o1). bindE (aof_sync E s2) (\<lambda>s3. Inr (s3, o1))))"
proof -
  from assms consider
      (set) "length cmd = 3" "cmd ! 0 = bytes_of ''set''"
    | (del) "length cmd = 2" "cmd ! 0 = bytes_of ''del''"
    | (pexpire) "length cmd = 3" "cmd ! 0 = bytes_of ''pexpire''"
    | (zadd) "length cmd = 4" "cmd ! 0 = bytes_of ''zadd''"
    | (zrem) "length cmd = 3" "cmd ! 0 = bytes_of ''zrem''"
    by (auto simp: mutating_def)
  then show ?thesis
  proof cases
    case set
    then show ?thesis by (simp add: do_request_def mutating_handler_def bytes_of_def)
  next
    case del
    then show ?thesis by (simp add: do_request_def mutating_handler_def bytes_of_def)
  next
    case pexpire
    then show ?thesis by (simp add: do_request_def mutating_handler_def bytes_of_def)
  next
    case zadd
    then show ?thesis by (simp add: do_request_def mutating_handler_def bytes_of_def)
  next
    case zrem
    then show ?thesis by (simp add: do_request_def mutating_handler_def bytes_of_def)
  qed
qed

lemma aof_flush_and_sync_exact:
  assumes inv: "buf_inv_strict (aof_buf s)" and en: "aof_enabled s"
    and pos: "0 < size_buf (aof_buf s)" and wr: "\<forall>n. aof_write E n \<le> int n"
    and k: "k = min (size_buf (aof_buf s)) (capacity (aof_buf s) - head (aof_buf s))"
  shows "get_continuous_data (aof_buf s) 0 = Inr (Some (head (aof_buf s)), k) \<and> 0 < k \<and>
         k \<le> size_buf (aof_buf s) \<and>
         (\<exists>s'. aof_flush_and_sync E s = Inr s' \<and>
            buf_bytes (aof_buf s') =
              drop (if aof_fd s < 0 \<or> aof_write E k < 0 then 0 else nat (aof_write E k))
                (buf_bytes (aof_buf s)))"
proof -
  have g: "get_continuous_data (aof_buf s) 0 = Inr (Some (head (aof_buf s)), k)"
    using get_continuous_data_0[OF inv pos] by (simp add: k)
  from inv have "head (aof_buf s) < capacity (aof_buf s)"
    by (simp add: buf_inv_strict_def buf_inv_def)
  with pos have k0: "0 < k" "k \<le> size_buf (aof_buf s)" by (simp_all add: k)
  have ne: "\<not> empty_buf (aof_buf s)" using pos by (simp add: empty_buf_def)
  have "\<exists>s'. aof_flush_and_sync E s = Inr s' \<and>
            buf_bytes (aof_buf s') =
              drop (if aof_fd s < 0 \<or> aof_write E k < 0 then 0 else nat (aof_write E k))
                (buf_bytes (aof_buf s))"
  proof (cases "aof_fd s < 0 \<or> aof_write E k < 0")
    case True
    then have "aof_flush_and_sync E s = Inr s"
      using g by (auto simp: aof_flush_and_sync_def Let_def)
    with True show ?thesis by simp
  next
    case False
    define n where "n = nat (aof_write E k)"
    from wr have "aof_write E k \<le> int k" by blast
    then have n: "n \<le> size_buf (aof_buf s)" using k0(2) by (simp add: n_def)
    from consume_strict[OF inv n] obtain b' where
      c: "consume (aof_buf s) n = Inr b'"
         "buf_bytes b' = drop n (buf_bytes (aof_buf s))" by blast
    have "aof_flush_and_sync E s =
        Inr (if sub_size_t (now_ms E) (aof_last_save_ms s) > 1000
             then s\<lparr>aof_buf := b', aof_last_save_ms := now_ms E\<rparr>
             else s\<lparr>aof_buf := b'\<rparr>)"
      using False g c(1) en ne by (simp add: aof_flush_and_sync_def Let_def n_def)
    with False c(2) show ?thesis by (simp add: n_def)
  qed
  with g k0 show ?thesis by simp
qed

lemma aof_frame_nonempty: "aof_frame cmd \<noteq> []"
  by (simp add: aof_frame_def le_bytes_4)

text \<open>
  Claim C1, as the code has it. For each of the five mutating commands dispatched through
  \<^verbatim>\<open>do_request\<close> with the log enabled, \<^verbatim>\<open>aof_write_command\<close> appends the record of the
  command to the log buffer first; the command then runs on the state that holds the record
  and leaves the log buffer alone, whatever it replies; then \<^verbatim>\<open>aof_flush_and_sync\<close> offers the
  \<open>k\<close> bytes from the read index to the end of the contents or of the storage to \<^verbatim>\<open>write\<close>
  and consumes what \<^verbatim>\<open>write\<close> returns. When \<^verbatim>\<open>do_request\<close> returns, the log buffer holds its
  former bytes followed by the record, less that many bytes at the front: none when the log
  descriptor is negative or \<^verbatim>\<open>write\<close> fails. The log descriptor accepts at most the bytes it
  is offered.
\<close>

theorem aof_frame_logged:
  assumes "mutating cmd" and "aof_enabled s" and "buf_inv_strict (aof_buf s)"
    and "\<forall>n. aof_write E n \<le> int n"
    and "do_request E s cmd out = Inr (s', out')"
  shows "\<exists>b1 s2 k.
           aof_write_command (aof_buf s) cmd = Inr b1 \<and>
           buf_bytes b1 = buf_bytes (aof_buf s) @ aof_frame cmd \<and>
           mutating_handler E (s\<lparr>aof_buf := b1\<rparr>) cmd out = Inr (s2, out') \<and> aof_buf s2 = b1 \<and>
           get_continuous_data b1 0 = Inr (Some (head b1), k) \<and>
           k = min (size_buf b1) (capacity b1 - head b1) \<and> 0 < k \<and>
           buf_bytes (aof_buf s') =
             drop (if aof_fd s < 0 \<or> aof_write E k < 0 then 0 else nat (aof_write E k))
               (buf_bytes (aof_buf s) @ aof_frame cmd)"
proof -
  from assms(1) have ne: "cmd \<noteq> []" by (auto simp: mutating_def)
  from aof_write_command_ok[OF assms(3) ne] obtain b1 where
    b1: "aof_write_command (aof_buf s) cmd = Inr b1" "buf_inv_strict b1"
        "buf_bytes b1 = buf_bytes (aof_buf s) @ aof_frame cmd" by blast
  have lg: "aof_log s cmd = Inr (s\<lparr>aof_buf := b1\<rparr>)"
    using assms(2) b1(1) by (simp add: aof_log_def)
  from assms(5) lg obtain s2 where
    f: "mutating_handler E (s\<lparr>aof_buf := b1\<rparr>) cmd out = Inr (s2, out')" and
    sy: "aof_sync E s2 = Inr s'"
    unfolding do_request_mutating[OF assms(1)] by (auto simp: bindE_eq_Inr)
  from mutating_handler_frame[OF f] assms(2)
  have s2: "aof_buf s2 = b1" "aof_enabled s2" "aof_fd s2 = aof_fd s" by simp_all
  have "buf_bytes b1 \<noteq> []" using b1(3) aof_frame_nonempty[of cmd] by simp
  then have "0 < length (buf_bytes b1)" by blast
  then have pos: "0 < size_buf (aof_buf s2)" using s2(1) by simp
  define k where "k = min (size_buf b1) (capacity b1 - head b1)"
  have k: "k = min (size_buf (aof_buf s2)) (capacity (aof_buf s2) - head (aof_buf s2))"
    by (simp add: k_def s2(1))
  have inv2: "buf_inv_strict (aof_buf s2)" using b1(2) s2(1) by simp
  have sy': "aof_flush_and_sync E s2 = Inr s'" using sy s2(2) by (simp add: aof_sync_def)
  from aof_flush_and_sync_exact[OF inv2 s2(2) pos assms(4) k] sy'
  have "get_continuous_data b1 0 = Inr (Some (head b1), k)" "0 < k"
    "buf_bytes (aof_buf s') =
       drop (if aof_fd s < 0 \<or> aof_write E k < 0 then 0 else nat (aof_write E k)) (buf_bytes b1)"
    by (simp_all add: s2)
  with b1(1,3) f s2(1) k_def show ?thesis
    by (intro exI[of _ b1] exI[of _ s2] exI[of _ k]) simp
qed

lemma aof_fold_inv:
  assumes "buf_inv b"
  shows "\<exists>b'. fold (\<lambda>s r. bindE r (\<lambda>b2. bindE (append_u32 b2 (word_of_nat (length s)))
                                          (\<lambda>b3. append b3 s))) cmd (Inr b) = Inr b' \<and>
          buf_inv b'"
  using assms
proof (induction cmd arbitrary: b)
  case Nil
  then show ?case by simp
next
  case (Cons s cmd)
  from append_ok[OF Cons.prems, of "le_bytes 4 (word_of_nat (length s) :: u32)"]
  obtain b1 where 1: "append b (le_bytes 4 (word_of_nat (length s) :: u32)) = Inr b1"
    "buf_inv b1" by blast
  from append_ok[OF 1(2), of s]
  obtain b2 where 2: "append b1 s = Inr b2" "buf_inv b2" by blast
  from Cons.IH[OF 2(2)] 1 2 show ?case
    by (auto simp: append_u32_def)
qed

lemma aof_write_command_inv:
  assumes "buf_inv b"
  shows "\<exists>b'. aof_write_command b cmd = Inr b' \<and> buf_inv b'"
proof (cases "cmd = []")
  case True
  with assms show ?thesis by (simp add: aof_write_command_def)
next
  case False
  from append_ok[OF assms, of "le_bytes 4 (word_of_nat (length cmd) :: u32)"]
  obtain b1 where 1: "append b (le_bytes 4 (word_of_nat (length cmd) :: u32)) = Inr b1"
    "buf_inv b1" by blast
  from aof_fold_inv[OF 1(2), of cmd] 1 False show ?thesis
    by (auto simp: aof_write_command_def append_u32_def)
qed

lemma aof_log_total:
  assumes "buf_inv (aof_buf s)"
  shows "\<exists>b'. aof_log s cmd = Inr (if aof_enabled s then s\<lparr>aof_buf := b'\<rparr> else s) \<and> buf_inv b'"
  using aof_write_command_inv[OF assms, of cmd] assms by (auto simp: aof_log_def)

lemma aof_flush_and_sync_total:
  assumes "buf_inv (aof_buf s)"
  shows "\<exists>s'. aof_flush_and_sync E s = Inr s' \<and> db s' = db s \<and> heap s' = heap s"
proof -
  from assms have c: "capacity (aof_buf s) \<noteq> 0" by (simp add: buf_inv_def)
  have "\<exists>p k. get_continuous_data (aof_buf s) 0 = Inr (p, k)"
    using c by (simp add: get_continuous_data_def Let_def)
  then obtain p k where g: "get_continuous_data (aof_buf s) 0 = Inr (p, k)" by blast
  show ?thesis using c g
    by (auto simp: aof_flush_and_sync_def Let_def consume_def)
qed

lemma aof_sync_total:
  assumes "buf_inv (aof_buf s)"
  shows "\<exists>s'. aof_sync E s = Inr s' \<and> db s' = db s \<and> heap s' = heap s"
  using aof_flush_and_sync_total[OF assms, of E] by (auto simp: aof_sync_def)

lemma hm_lookup_put:
  "hm_lookup (hm_put m k e) k' =
     (if k' = k then (case hm_lookup m k of None \<Rightarrow> None | Some _ \<Rightarrow> Some e) else hm_lookup m k')"
  by (induction m) (auto simp: hm_lookup_def hm_put_def)

lemma hm_lookup_insert:
  "hm_lookup (hm_insert m e) k' = (if k' = key e then Some e else hm_lookup m k')"
  by (simp add: hm_lookup_def hm_insert_def)

lemma do_set_result:
  assumes "buf_inv out"
  shows "\<exists>out'. do_set s cmd out =
      Inr (case hm_lookup (db s) (cmd ! 1) of
             Some ent \<Rightarrow>
               if etype ent \<noteq> T_STR then s
               else s\<lparr>db := hm_put (db s) (cmd ! 1) (ent\<lparr>str := cmd ! 2\<rparr>)\<rparr>
           | None \<Rightarrow>
               s\<lparr>db := hm_insert (db s) ((entry_new T_STR)\<lparr>key := cmd ! 1, str := cmd ! 2\<rparr>)\<rparr>,
           out')"
  using out_nil_ok[OF assms] out_err_ok[OF assms, of ERR_BAD_TYP "bytes_of ''a non-string value exists''"]
  by (auto simp: do_set_def Let_def split: option.splits)

lemma do_request_set_run:
  assumes cmd: "cmd = [bytes_of ''set'', k, v]"
    and out: "buf_inv out" and aof: "buf_inv (aof_buf s)"
  shows "\<exists>s' out'. do_request E s cmd out = Inr (s', out') \<and> heap s' = heap s \<and>
     db s' = (case hm_lookup (db s) k of
                Some ent \<Rightarrow>
                  if etype ent \<noteq> T_STR then db s else hm_put (db s) k (ent\<lparr>str := v\<rparr>)
              | None \<Rightarrow> hm_insert (db s) ((entry_new T_STR)\<lparr>key := k, str := v\<rparr>))"
proof -
  from aof_log_total[OF aof, of cmd] obtain b1 where
    lg: "aof_log s cmd = Inr (if aof_enabled s then s\<lparr>aof_buf := b1\<rparr> else s)" and b1: "buf_inv b1"
    by blast
  define s1 where "s1 = (if aof_enabled s then s\<lparr>aof_buf := b1\<rparr> else s)"
  have s1: "db s1 = db s" "heap s1 = heap s" "buf_inv (aof_buf s1)"
    using b1 aof by (auto simp: s1_def)
  define s2 where "s2 = (case hm_lookup (db s1) (cmd ! 1) of
             Some ent \<Rightarrow>
               if etype ent \<noteq> T_STR then s1
               else s1\<lparr>db := hm_put (db s1) (cmd ! 1) (ent\<lparr>str := cmd ! 2\<rparr>)\<rparr>
           | None \<Rightarrow>
               s1\<lparr>db := hm_insert (db s1) ((entry_new T_STR)\<lparr>key := cmd ! 1, str := cmd ! 2\<rparr>)\<rparr>)"
  from do_set_result[OF out, of s1 cmd] obtain o1 where ds: "do_set s1 cmd out = Inr (s2, o1)"
    by (auto simp: s2_def)
  have s2: "heap s2 = heap s" "buf_inv (aof_buf s2)"
    using s1 by (auto simp: s2_def split: option.splits)
  from aof_sync_total[OF s2(2), of E] obtain s3 where
    sy: "aof_sync E s2 = Inr s3" "db s3 = db s2" "heap s3 = heap s2" by blast
  have run: "do_request E s cmd out = Inr (s3, o1)"
    using lg ds sy(1) by (simp add: do_request_def cmd s1_def bytes_of_def)
  have "db s2 = (case hm_lookup (db s) k of
                Some ent \<Rightarrow>
                  if etype ent \<noteq> T_STR then db s else hm_put (db s) k (ent\<lparr>str := v\<rparr>)
              | None \<Rightarrow> hm_insert (db s) ((entry_new T_STR)\<lparr>key := k, str := v\<rparr>))"
    using s1(1) by (simp add: s2_def cmd split: option.splits)
  with run sy(2,3) s2(1) show ?thesis by simp
qed

text \<open>
  Claim C9. \<open>set k v\<close> through \<^verbatim>\<open>do_request\<close> returns, leaves the TTL heap as it was and
  leaves every entry of the table in place with the \<open>heap_idx\<close> it had: the entry of \<open>k\<close>,
  when it holds a string, differs in its string alone, and every other entry (and the entry
  of \<open>k\<close> when it holds a sorted set) is unchanged. So a deadline that an earlier
  \<^verbatim>\<open>pexpire\<close> put into the heap is still there, and still belongs to the entry.
\<close>

theorem set_keeps_ttl:
  assumes cmd: "cmd = [bytes_of ''set'', k, v]"
    and out: "buf_inv out" and aof: "buf_inv (aof_buf s)"
  shows "\<exists>s' out'. do_request E s cmd out = Inr (s', out') \<and> heap s' = heap s \<and>
     (\<forall>k' e. hm_lookup (db s) k' = Some e \<longrightarrow>
        (\<exists>e'. hm_lookup (db s') k' = Some e' \<and> heap_idx e' = heap_idx e \<and>
              (k' = k \<and> etype e = T_STR \<longrightarrow> e' = e\<lparr>str := v\<rparr>) \<and>
              (k' \<noteq> k \<or> etype e \<noteq> T_STR \<longrightarrow> e' = e)))"
proof -
  from do_request_set_run[OF assms, of E] obtain s' out' where
    run: "do_request E s cmd out = Inr (s', out')" "heap s' = heap s" and
    db: "db s' = (case hm_lookup (db s) k of
                Some ent \<Rightarrow>
                  if etype ent \<noteq> T_STR then db s else hm_put (db s) k (ent\<lparr>str := v\<rparr>)
              | None \<Rightarrow> hm_insert (db s) ((entry_new T_STR)\<lparr>key := k, str := v\<rparr>))"
    by blast
  have "\<exists>e'. hm_lookup (db s') k' = Some e' \<and> heap_idx e' = heap_idx e \<and>
              (k' = k \<and> etype e = T_STR \<longrightarrow> e' = e\<lparr>str := v\<rparr>) \<and>
              (k' \<noteq> k \<or> etype e \<noteq> T_STR \<longrightarrow> e' = e)"
    if "hm_lookup (db s) k' = Some e" for k' e
    using that unfolding db
    by (auto simp: hm_lookup_put hm_lookup_insert entry_new_def split: option.splits)
  with run show ?thesis by blast
qed

text \<open>
  Example environments and states: an environment whose log descriptor takes every byte,
  one whose \<^verbatim>\<open>write\<close> fails and one whose \<^verbatim>\<open>write\<close> takes a single byte; the state of a server that has just started; a state where
  the key \<open>k\<close> holds a sorted set, and one where it holds a string with a TTL.
\<close>

definition env0 :: env where
  "env0 = \<lparr>now_ms = 1000,
     strtoll = (\<lambda>s. if s = bytes_of ''0'' then (0, 1) else if s = bytes_of ''2'' then (2, 1)
                     else (0, 0)),
     strtod = (\<lambda>s. if s = bytes_of ''1'' then (0x3FF0000000000000, 1) else (0, 0)),
     aof_write = (\<lambda>n. int n), open_rewrite = 7, rename_rv = 0, open_renamed = 8\<rparr>"

definition env_eagain :: env where
  "env_eagain = env0\<lparr>aof_write := (\<lambda>n. - 1)\<rparr>"

definition env_short :: env where
  "env_short = env0\<lparr>aof_write := (\<lambda>n. int (min n 1))\<rparr>"

definition state0 :: g_data where
  "state0 = \<lparr>db = [], idle_list = [], heap = [], aof_fd = 3, aof_last_save_ms = 0,
     aof_buf = Buffer_default, aof_enabled = True, aof_rewrite_fd = - 1, aof_rewriting = False,
     aof_rewrite_progress = 0\<rparr>"

definition zset_entry :: Entry where
  "zset_entry = \<lparr>key = bytes_of ''k'', heap_idx = no_heap_idx, etype = T_ZSET, str = [],
     zset = [(bytes_of ''a'', 0x3FF0000000000000)]\<rparr>"

definition state_zset :: g_data where
  "state_zset = state0\<lparr>db := [(bytes_of ''k'', zset_entry)]\<rparr>"

definition ttl_entry :: Entry where
  "ttl_entry = \<lparr>key = bytes_of ''k'', heap_idx = 0, etype = T_STR, str = bytes_of ''v'',
     zset = []\<rparr>"

definition state_ttl :: g_data where
  "state_ttl = state0\<lparr>db := [(bytes_of ''k'', ttl_entry)],
     heap := [\<lparr>val = 6000, ref = bytes_of ''k''\<rparr>]\<rparr>"

definition set_cmd :: "bytes list" where
  "set_cmd = [bytes_of ''set'', bytes_of ''k'', bytes_of ''w'']"

text \<open>What a call of \<^verbatim>\<open>do_request\<close> leaves in the log buffer and in the output buffer.\<close>

definition observe :: "fault + (g_data \<times> Buffer) \<Rightarrow> fault + (bytes \<times> bytes)" where
  "observe r =
     (case r of Inl e \<Rightarrow> Inl e | Inr (s, out) \<Rightarrow> Inr (buf_bytes (aof_buf s), buf_bytes out))"

lemma Buffer_default_inv: "buf_inv Buffer_default" "buf_inv_strict Buffer_default"
  "buf_bytes Buffer_default = []"
  by (simp_all add: Buffer_default_def Buffer_init_def buf_inv_def buf_inv_strict_def buf_bytes_def)

lemma flush_eagain:
  assumes "buf_inv (aof_buf s)"
  shows "aof_flush_and_sync env_eagain s = Inr s"
proof -
  from assms have c: "capacity (aof_buf s) \<noteq> 0" by (simp add: buf_inv_def)
  have "\<exists>p k. get_continuous_data (aof_buf s) 0 = Inr (p, k)"
    using c by (simp add: get_continuous_data_def Let_def)
  then obtain p k where g: "get_continuous_data (aof_buf s) 0 = Inr (p, k)" by blast
  show ?thesis using g
    by (simp add: aof_flush_and_sync_def Let_def env_eagain_def)
qed

text \<open>
  Claim C1 as stated fails: \<open>set k w\<close> where \<open>k\<close> holds a sorted set replies
  \<open>ERR(BAD_TYP)\<close>, and the record of the command is in the log buffer, which was empty
  (here the \<^verbatim>\<open>write\<close> to the log fails, so the record stays there).
\<close>

theorem aof_frame_logged_counterexample:
  "observe (do_request env_eagain state_zset set_cmd Buffer_default) =
     Inr (aof_frame set_cmd, enc_err ERR_BAD_TYP (bytes_of ''a non-string value exists'')) \<and>
   buf_bytes (aof_buf state_zset) = [] \<and> aof_frame set_cmd \<noteq> []"
proof -
  have ne: "set_cmd \<noteq> []" by (simp add: set_cmd_def)
  from aof_write_command_ok[OF Buffer_default_inv(2) ne] obtain b1 where
    b1: "aof_write_command Buffer_default set_cmd = Inr b1" "buf_inv_strict b1"
        "buf_bytes b1 = aof_frame set_cmd"
    by (auto simp: Buffer_default_inv)
  from out_err_ok[OF Buffer_default_inv(1), of ERR_BAD_TYP "bytes_of ''a non-string value exists''"]
  obtain o1 where o1: "out_err Buffer_default ERR_BAD_TYP (bytes_of ''a non-string value exists'') = Inr o1"
    "buf_bytes o1 = enc_err ERR_BAD_TYP (bytes_of ''a non-string value exists'')"
    by (auto simp: extends_def Buffer_default_inv)
  have lg: "aof_log state_zset set_cmd = Inr (state_zset\<lparr>aof_buf := b1\<rparr>)"
    using b1(1) by (simp add: aof_log_def state_zset_def state0_def)
  have ds: "do_set (state_zset\<lparr>aof_buf := b1\<rparr>) set_cmd Buffer_default =
      Inr (state_zset\<lparr>aof_buf := b1\<rparr>, o1)"
    using o1(1)
    by (simp add: do_set_def state_zset_def state0_def set_cmd_def hm_lookup_def zset_entry_def)
  have sy: "aof_sync env_eagain (state_zset\<lparr>aof_buf := b1\<rparr>) = Inr (state_zset\<lparr>aof_buf := b1\<rparr>)"
    using flush_eagain[of "state_zset\<lparr>aof_buf := b1\<rparr>"] b1(2)
    by (simp add: aof_sync_def buf_inv_strict_def)
  have "do_request env_eagain state_zset set_cmd Buffer_default =
      Inr (state_zset\<lparr>aof_buf := b1\<rparr>, o1)"
    unfolding do_request_def using lg ds sy
    by (simp add: set_cmd_def bytes_of_def)
  moreover have "aof_frame set_cmd \<noteq> []"
    by (simp add: aof_frame_def le_bytes_4)
  moreover have "buf_bytes (aof_buf state_zset) = []"
    by (simp add: state_zset_def state0_def Buffer_default_inv)
  ultimately show ?thesis using b1(3) o1(2) by (simp add: observe_def)
qed

text \<open>
  The same command with a log descriptor that takes one byte: the 21 bytes of the record
  less the first are left in the log buffer.
\<close>

theorem aof_frame_logged_witness:
  "mutating set_cmd \<and> aof_enabled state_zset \<and> buf_inv_strict (aof_buf state_zset) \<and>
   (\<forall>n. aof_write env_short n \<le> int n) \<and> aof_fd state_zset = 3 \<and>
   buf_bytes (aof_buf state_zset) = [] \<and> length (aof_frame set_cmd) = 21 \<and>
   (\<exists>s' out'. do_request env_short state_zset set_cmd Buffer_default = Inr (s', out') \<and>
      buf_bytes (aof_buf s') = drop 1 (aof_frame set_cmd))"
proof -
  have m: "mutating set_cmd" by (simp add: mutating_def set_cmd_def)
  have e: "aof_enabled state_zset" by (simp add: state_zset_def state0_def)
  have i: "buf_inv_strict (aof_buf state_zset)"
    by (simp add: state_zset_def state0_def Buffer_default_inv)
  have w: "\<forall>n. aof_write env_short n \<le> int n" by (simp add: env_short_def)
  have fd: "aof_fd state_zset = 3" by (simp add: state_zset_def state0_def)
  have em: "buf_bytes (aof_buf state_zset) = []"
    by (simp add: state_zset_def state0_def Buffer_default_inv)
  have len: "length (aof_frame set_cmd) = 21"
    by (simp add: aof_frame_def set_cmd_def bytes_of_def le_bytes_4)
  have c: "set_cmd = [bytes_of ''set'', bytes_of ''k'', bytes_of ''w'']" by (simp add: set_cmd_def)
  from i have i': "buf_inv (aof_buf state_zset)" by (simp add: buf_inv_strict_def)
  from do_request_set_run[OF c Buffer_default_inv(1) i', of env_short]
  obtain s' out' where r: "do_request env_short state_zset set_cmd Buffer_default = Inr (s', out')"
    by blast
  from aof_frame_logged[OF m e i w r] obtain k where
    k: "0 < k" "buf_bytes (aof_buf s') =
      drop (if aof_fd state_zset < 0 \<or> aof_write env_short k < 0 then 0
            else nat (aof_write env_short k))
        (buf_bytes (aof_buf state_zset) @ aof_frame set_cmd)"
    by blast
  from k(1) have "aof_write env_short k = 1" by (simp add: env_short_def)
  with k(2) fd em have "buf_bytes (aof_buf s') = drop 1 (aof_frame set_cmd)" by simp
  with r m e i w fd em len show ?thesis by blast
qed

theorem set_keeps_ttl_witness:
  "set_cmd = [bytes_of ''set'', bytes_of ''k'', bytes_of ''w''] \<and> buf_inv Buffer_default \<and>
   buf_inv (aof_buf state_ttl) \<and>
   (\<exists>s' out'. do_request env0 state_ttl set_cmd Buffer_default = Inr (s', out') \<and>
      heap s' = [\<lparr>val = 6000, ref = bytes_of ''k''\<rparr>] \<and>
      hm_lookup (db s') (bytes_of ''k'') = Some (ttl_entry\<lparr>str := bytes_of ''w''\<rparr>) \<and>
      heap_idx (ttl_entry\<lparr>str := bytes_of ''w''\<rparr>) = 0)"
proof -
  have c: "set_cmd = [bytes_of ''set'', bytes_of ''k'', bytes_of ''w'']" by (simp add: set_cmd_def)
  have i: "buf_inv (aof_buf state_ttl)"
    by (simp add: state_ttl_def state0_def Buffer_default_inv)
  have l: "hm_lookup (db state_ttl) (bytes_of ''k'') = Some ttl_entry"
    by (simp add: state_ttl_def state0_def hm_lookup_def)
  from set_keeps_ttl[OF c Buffer_default_inv(1) i, of env0] obtain s' out' where
    r: "do_request env0 state_ttl set_cmd Buffer_default = Inr (s', out')"
       "heap s' = heap state_ttl"
       "\<forall>k' e. hm_lookup (db state_ttl) k' = Some e \<longrightarrow>
        (\<exists>e'. hm_lookup (db s') k' = Some e' \<and> heap_idx e' = heap_idx e \<and>
              (k' = bytes_of ''k'' \<and> etype e = T_STR \<longrightarrow> e' = e\<lparr>str := bytes_of ''w''\<rparr>) \<and>
              (k' \<noteq> bytes_of ''k'' \<or> etype e \<noteq> T_STR \<longrightarrow> e' = e))"
    by blast
  from r(3)[rule_format, OF l]
  have "hm_lookup (db s') (bytes_of ''k'') = Some (ttl_entry\<lparr>str := bytes_of ''w''\<rparr>)"
    by (auto simp: ttl_entry_def)
  with r(1,2) c i show ?thesis
    by (auto simp: Buffer_default_inv state_ttl_def state0_def ttl_entry_def)
qed

text \<open>
  Two connections: the incoming buffer of the first holds the four bytes of the length 1
  and nothing of the message, the one of the second holds a single byte.
\<close>

definition conn0 :: Conn where
  "conn0 = \<lparr>fd = 5, want_read = True, want_write = False, want_close = False,
     incoming = header_buffer, outgoing = Buffer_default, last_active_ms = 0\<rparr>"

definition conn_short :: Conn where
  "conn_short = conn0\<lparr>incoming := small_buffer\<rparr>"

theorem peek_u32_defined_witness:
  "buf_inv header_buffer \<and> 0 + 4 \<le> size_buf header_buffer \<and>
   peek_u32 header_buffer 0 = Inr 1 \<and>
   size_buf header_buffer \<le> 4 \<and> peek header_buffer 4 4 = Inr None \<and>
   peek_u32 header_buffer 4 = Inl Indeterminate \<and>
   size_buf (incoming conn_short) < 4 \<and>
   try_one_request env0 state0 conn_short = Inr (False, state0, conn_short) \<and>
   buf_inv (incoming conn0) \<and> 4 \<le> size_buf (incoming conn0) \<and>
   peek_u32 (incoming conn0) 0 = Inr 1 \<and>
   try_one_request env0 state0 conn0 = try_one_request_body env0 state0 conn0 1 \<and>
   try_one_request env0 state0 conn0 = Inr (False, state0, conn0) \<and>
   try_one_request env0 state0 conn0 \<noteq> Inl Indeterminate"
proof -
  have i: "buf_inv header_buffer" by (simp add: buf_inv_def header_buffer_def)
  have s: "size_buf header_buffer = 4" by (simp add: header_buffer_def)
  have w: "le_word (take 4 (drop 0 (buf_bytes header_buffer))) = (1 :: u32)"
    "le_word (take 4 (buf_bytes header_buffer)) = (1 :: u32)"
    by (simp_all add: header_buffer_bytes le_word_def)
  have c: "incoming conn0 = header_buffer" by (simp add: conn0_def)
  have sh: "size_buf (incoming conn_short) < 4" by (simp add: conn_short_def small_buffer_def)
  have b: "try_one_request_body env0 state0 conn0 1 = Inr (False, state0, conn0)"
    by (simp add: try_one_request_body_def k_max_msg_def c s)
  from peek_u32_defined[where b=header_buffer and pos=0 and conn=conn0 and E=env0 and s=state0]
    peek_u32_defined[where b=header_buffer and pos=4 and conn=conn_short and E=env0 and s=state0]
    i s w c sh b
  show ?thesis by simp
qed

section \<open>Replay of the log\<close>

text \<open>The table a call of \<^verbatim>\<open>load_aof_file\<close> leaves.\<close>

definition loaded_db :: "fault + g_data \<Rightarrow> fault + HMap" where
  "loaded_db r = (case r of Inl e \<Rightarrow> Inl e | Inr s \<Rightarrow> Inr (db s))"

text \<open>
  Two pieces of a log: the record of \<open>set k v\<close>, and a record that announces three strings
  and ends after the second, \<open>del\<close> and \<open>k\<close>.
\<close>

definition log_set_k_v :: bytes where
  "log_set_k_v = [3, 0, 0, 0, 3, 0, 0, 0, 115, 101, 116, 1, 0, 0, 0, 107, 1, 0, 0, 0, 118]"

definition log_cut_del_k :: bytes where
  "log_cut_del_k = [3, 0, 0, 0, 3, 0, 0, 0, 100, 101, 108, 1, 0, 0, 0, 107]"

lemma read_cmd_numeral:
  "read_cmd (numeral n) cur cmd =
     (if length cur < 4 then (cmd, [])
      else
        (let len = unat (le_word (take 4 cur) :: u32); cur1 = drop 4 cur in
         if length cur1 < len then (cmd, [])
         else read_cmd (pred_numeral n) (drop len cur1) (cmd @ [take len cur1])))"
  by (simp add: numeral_eq_Suc)

lemma log_frames: "log_set_k_v = aof_frame [bytes_of ''set'', bytes_of ''k'', bytes_of ''v'']"
  by (simp add: log_set_k_v_def aof_frame_def le_bytes_4 bytes_of_def)

lemma read1: "read_cmd 3 (drop 4 log_set_k_v) [] = ([bytes_of ''set'', bytes_of ''k'', bytes_of ''v''], [])"
  by (simp add: read_cmd_numeral log_set_k_v_def le_word_def bytes_of_def Let_def)

lemma read2: "read_cmd 3 (drop 4 log_cut_del_k) [] = ([bytes_of ''del'', bytes_of ''k''], [])"
  by (simp add: read_cmd_numeral log_cut_del_k_def le_word_def bytes_of_def Let_def)

definition str_entry :: Entry where
  "str_entry = \<lparr>key = bytes_of ''k'', heap_idx = no_heap_idx, etype = T_STR, str = bytes_of ''v'',
     zset = []\<rparr>"

lemma step_set:
  "\<exists>out. do_request env0 (state0\<lparr>aof_enabled := False\<rparr>) [bytes_of ''set'', bytes_of ''k'', bytes_of ''v''] Buffer_default
     = Inr (state0\<lparr>aof_enabled := False, db := [(bytes_of ''k'', str_entry)]\<rparr>, out)"
  using do_set_result[OF Buffer_default_inv(1), of "state0\<lparr>aof_enabled := False\<rparr>" "[bytes_of ''set'', bytes_of ''k'', bytes_of ''v'']"]
  by (auto simp: do_request_def aof_log_def aof_sync_def bytes_of_def state0_def hm_lookup_def
      hm_insert_def entry_new_def str_entry_def)

lemma step_del:
  "\<exists>out. do_request env0 (state0\<lparr>aof_enabled := False, db := [(bytes_of ''k'', str_entry)]\<rparr>)
       [bytes_of ''del'', bytes_of ''k''] Buffer_default
     = Inr (state0\<lparr>aof_enabled := False, db := []\<rparr>, out)"
  using out_int_ok[OF Buffer_default_inv(1), of 1]
  by (auto simp: do_request_def aof_log_def aof_sync_def bytes_of_def state0_def hm_lookup_def
      do_del_def entry_del_def entry_set_ttl_def hm_delete_def str_entry_def)

text \<open>
  Claim C5 on the code. When a \<^verbatim>\<open>fread\<close> inside a record finds the end of the file, the
  \<^verbatim>\<open>break\<close> leaves the loop over the strings only, and the strings read so far are
  dispatched as a command before the next \<^verbatim>\<open>fread\<close> ends the replay. A log that holds
  \<open>set k v\<close> alone leaves \<open>k\<close> in the table; the same log followed by the truncated record
  leaves the table empty: the two strings of the truncated record were run as \<open>del k\<close>.
\<close>

theorem replay_truncated_record:
  "log_set_k_v = aof_frame [bytes_of ''set'', bytes_of ''k'', bytes_of ''v''] \<and>
   loaded_db (load_aof_file env0 state0 (Some log_set_k_v)) = Inr [(bytes_of ''k'', str_entry)] \<and>
   loaded_db (load_aof_file env0 state0 (Some (log_set_k_v @ log_cut_del_k))) = Inr []"
proof -
  have n1: "unat (le_word (take 4 log_set_k_v) :: u32) = 3"
    by (simp add: log_set_k_v_def le_word_def)
  have n2: "unat (le_word (take 4 log_cut_del_k) :: u32) = 3"
    by (simp add: log_cut_del_k_def le_word_def)
  have l1: "length log_set_k_v = 21" by (simp add: log_set_k_v_def)
  have l2: "length log_cut_del_k = 16" by (simp add: log_cut_del_k_def)
  have e: "replay env0 s [] = Inr s" for s by (subst replay.simps) simp
  have r2: "replay env0 (state0\<lparr>aof_enabled := False, db := [(bytes_of ''k'', str_entry)]\<rparr>) log_cut_del_k
      = Inr (state0\<lparr>aof_enabled := False, db := []\<rparr>)"
    using step_del by (subst replay.simps) (auto simp: n2 l2 read2 k_max_args_def e)
  have rd: "read_cmd 3 (drop 4 log_set_k_v @ log_cut_del_k) [] =
      ([bytes_of ''set'', bytes_of ''k'', bytes_of ''v''], log_cut_del_k)"
    by (simp add: read_cmd_numeral log_set_k_v_def le_word_def bytes_of_def Let_def)
  have r1: "replay env0 (state0\<lparr>aof_enabled := False\<rparr>) log_set_k_v
      = Inr (state0\<lparr>aof_enabled := False, db := [(bytes_of ''k'', str_entry)]\<rparr>)"
    using step_set by (subst replay.simps) (auto simp: n1 l1 read1 k_max_args_def e)
  have r12: "replay env0 (state0\<lparr>aof_enabled := False\<rparr>) (log_set_k_v @ log_cut_del_k)
      = Inr (state0\<lparr>aof_enabled := False, db := []\<rparr>)"
    using step_set by (subst replay.simps) (auto simp: n1 l1 rd k_max_args_def r2)
  show ?thesis using r1 r12
    by (simp add: load_aof_file_def loaded_db_def state0_def log_frames)
qed

section \<open>Range queries\<close>

text \<open>
  The reply of \<open>zquery\<close>, written out from the command table: the pairs of the set from
  the node that \<open>offset\<close> ranks away from the first node not below (score, name), none when
  there is no such node; of these the first \<open>(limit + 1) div 2\<close>, since the loop counts
  two array elements for a pair and runs while the count is below \<open>limit\<close>; the array of
  the names and scores. A key that holds another type gives \<open>ERR(BAD_TYP)\<close>, whatever
  \<open>limit\<close> is; a key that does not exist gives what the empty set gives.
\<close>

definition enc_pairs :: "ZSet \<Rightarrow> bytes" where
  "enc_pairs ps = concat (map (\<lambda>p. enc_str (fst p) @ enc_dbl (snd p)) ps)"

definition zquery_from :: "ZSet \<Rightarrow> dbl \<Rightarrow> bytes \<Rightarrow> int \<Rightarrow> ZSet" where
  "zquery_from z score name offset =
     (let i0 = length (takeWhile (\<lambda>p. zkey p < (dbl_key score, name)) z) in
      if i0 < length z \<and> 0 \<le> int i0 + offset then drop (nat (int i0 + offset)) z else [])"

definition zquery_pairs :: "ZSet \<Rightarrow> dbl \<Rightarrow> bytes \<Rightarrow> int \<Rightarrow> int \<Rightarrow> ZSet" where
  "zquery_pairs z score name offset limit =
     take (nat ((limit + 1) div 2)) (zquery_from z score name offset)"

definition zquery_arr :: "ZSet \<Rightarrow> dbl \<Rightarrow> bytes \<Rightarrow> int \<Rightarrow> int \<Rightarrow> bytes" where
  "zquery_arr z score name offset limit =
     (if limit \<le> 0 then enc_arr 0
      else
        (let ps = zquery_pairs z score name offset limit in
         enc_arr (word_of_nat (2 * length ps)) @ enc_pairs ps))"

definition zquery_reply :: "g_data \<Rightarrow> bytes \<Rightarrow> dbl \<Rightarrow> bytes \<Rightarrow> int \<Rightarrow> int \<Rightarrow> bytes" where
  "zquery_reply s k score name offset limit =
     (case hm_lookup (db s) k of
        Some ent \<Rightarrow>
          if etype ent \<noteq> T_ZSET then enc_err ERR_BAD_TYP (bytes_of ''expect zset'')
          else zquery_arr (zset ent) score name offset limit
      | None \<Rightarrow> zquery_arr [] score name offset limit)"

text \<open>The bytes an output function leaves in the buffer.\<close>

definition bytes_written :: "fault + Buffer \<Rightarrow> fault + bytes" where
  "bytes_written r = (case r of Inl e \<Rightarrow> Inl e | Inr b \<Rightarrow> Inr (buf_bytes b))"

lemma enc_pairs_Cons: "enc_pairs (p # ps) = enc_str (fst p) @ enc_dbl (snd p) @ enc_pairs ps"
  by (simp add: enc_pairs_def)

lemma enc_pairs_Nil [simp]: "enc_pairs [] = []"
  by (simp add: enc_pairs_def)

lemma zquery_loop_ok:
  assumes "buf_inv out"
  shows "\<exists>out'. zquery_loop z (if i < length z then Some i else None) n limit out =
            Inr (out', n + 2 * int (length (take (nat ((limit - n + 1) div 2)) (drop i z)))) \<and>
          extends out (enc_pairs (take (nat ((limit - n + 1) div 2)) (drop i z))) out'"
  using assms
proof (induction "length z - i" arbitrary: i n out)
  case 0
  then have "\<not> i < length z" by simp
  then show ?case using 0(2) by (subst zquery_loop.simps) (simp add: extends_refl)
next
  case (Suc k)
  then have i: "i < length z" by simp
  show ?case
  proof (cases "n < limit")
    case False
    then have "nat ((limit - n + 1) div 2) = 0" by simp
    then show ?thesis using False i Suc.prems
      by (subst zquery_loop.simps) (simp add: extends_refl)
  next
    case True
    from out_str_ok[OF Suc.prems, of "fst (z ! i)"] obtain o1 where
      o1: "out_str out (fst (z ! i)) = Inr o1" "extends out (enc_str (fst (z ! i))) o1" by blast
    from out_dbl_ok[OF extends_inv[OF o1(2)], of "snd (z ! i)"] obtain o2 where
      o2: "out_dbl o1 (snd (z ! i)) = Inr o2" "extends o1 (enc_dbl (snd (z ! i))) o2" by blast
    have k: "k = length z - Suc i" using Suc(2) by simp
    from Suc(1)[OF k extends_inv[OF o2(2)], of "n + 2"] obtain out' where
      r: "zquery_loop z (if Suc i < length z then Some (Suc i) else None) (n + 2) limit o2 =
            Inr (out', n + 2 + 2 * int (length (take (nat ((limit - (n + 2) + 1) div 2)) (drop (Suc i) z))))"
         "extends o2 (enc_pairs (take (nat ((limit - (n + 2) + 1) div 2)) (drop (Suc i) z))) out'"
      by blast
    have off: "znode_offset z (Some i) 1 = (if Suc i < length z then Some (Suc i) else None)"
      by (auto simp: znode_offset_def nat_add_distrib)
    have cnt: "nat ((limit - n + 1) div 2) = Suc (nat ((limit - (n + 2) + 1) div 2))"
      using True by (simp add: nat_eq_iff)
    have ps: "take (nat ((limit - n + 1) div 2)) (drop i z) =
        z ! i # take (nat ((limit - (n + 2) + 1) div 2)) (drop (Suc i) z)"
      using i by (simp add: cnt Cons_nth_drop_Suc[symmetric])
    have ext: "extends out (enc_pairs (take (nat ((limit - n + 1) div 2)) (drop i z))) out'"
      using extends_trans[OF extends_trans[OF o1(2) o2(2)] r(2)]
      by (simp add: ps enc_pairs_Cons)
    show ?thesis using True i o1(1) o2(1) r(1) ext
      by (subst zquery_loop.simps) (simp add: off ps)
  qed
qed

lemma length_le_bytes [simp]: "length (le_bytes n w) = n"
  by (simp add: le_bytes_def)

lemma patch_ok:
  assumes inv: "buf_inv b" and fit: "ctx + length xs \<le> size_buf b"
    and cont: "(head b + ctx) mod capacity b + length xs \<le> capacity b"
  shows "\<exists>d. memcpy (data b) ((head b + ctx) mod capacity b) xs 0 (length xs) = Inr d \<and>
           buf_inv (b\<lparr>data := d\<rparr>) \<and>
           buf_bytes (b\<lparr>data := d\<rparr>) =
             take ctx (buf_bytes b) @ xs @ drop (ctx + length xs) (buf_bytes b)"
proof -
  from inv have h: "0 < capacity b" "length (data b) = capacity b" "head b < capacity b"
      "size_buf b \<le> capacity b" "tail b \<le> capacity b"
    by (auto simp: buf_inv_alt)
  define p where "p = (head b + ctx) mod capacity b"
  have a: "0 + length xs \<le> length xs" "p + length xs \<le> length (data b)"
    using cont h by (auto simp: p_def)
  from memcpy_ok[OF a] obtain d where d: "memcpy (data b) p xs 0 (length xs) = Inr d"
    "length d = length (data b)"
    "\<forall>k < length (data b). d ! k = (if p \<le> k \<and> k < p + length xs then xs ! (0 + (k - p)) else data b ! k)"
    by blast
  have inv': "buf_inv (b\<lparr>data := d\<rparr>)" using inv d(2) by (simp add: buf_inv_def)
  have "buf_bytes (b\<lparr>data := d\<rparr>) = take ctx (buf_bytes b) @ xs @ drop (ctx + length xs) (buf_bytes b)"
  proof (rule nth_equalityI)
    show "length (buf_bytes (b\<lparr>data := d\<rparr>)) =
        length (take ctx (buf_bytes b) @ xs @ drop (ctx + length xs) (buf_bytes b))"
      using fit by simp
  next
    fix i assume "i < length (buf_bytes (b\<lparr>data := d\<rparr>))"
    then have i: "i < size_buf b" by simp
    define q where "q = (head b + i) mod capacity b"
    have q: "q < capacity b" using h by (simp add: q_def)
    from i h have "head b + i < 2 * capacity b" by arith
    then have mq: "q = (if head b + i < capacity b then head b + i else head b + i - capacity b)"
      unfolding q_def by (rule mod_ring)
    from fit h have "head b + ctx < 2 * capacity b" by arith
    then have mp: "p = (if head b + ctx < capacity b then head b + ctx else head b + ctx - capacity b)"
      unfolding p_def by (rule mod_ring)
    have e: "d ! q = (if p \<le> q \<and> q < p + length xs then xs ! (q - p) else data b ! q)"
      using d(3) q h(2) by simp
    have rng: "(p \<le> q \<and> q < p + length xs) = (ctx \<le> i \<and> i < ctx + length xs)"
      using mp mq i fit h a(2) by (auto split: if_splits)
    have sub: "ctx \<le> i \<Longrightarrow> i < ctx + length xs \<Longrightarrow> q - p = i - ctx"
      using mp mq i fit h a(2) by (auto split: if_splits)
    have "buf_bytes (b\<lparr>data := d\<rparr>) ! i = d ! q" using i by (simp add: buf_bytes_nth q_def)
    also have "\<dots> = (if ctx \<le> i \<and> i < ctx + length xs then xs ! (i - ctx) else data b ! q)"
      using sub by (simp add: e rng)
    also have "\<dots> = (if ctx \<le> i \<and> i < ctx + length xs then xs ! (i - ctx) else buf_bytes b ! i)"
      using i by (simp add: buf_bytes_nth q_def)
    also have "\<dots> = (take ctx (buf_bytes b) @ xs @ drop (ctx + length xs) (buf_bytes b)) ! i"
      using i fit by (auto simp: nth_append min_def intro!: arg_cong[where f="nth (buf_bytes b)"])
    finally show "buf_bytes (b\<lparr>data := d\<rparr>) ! i =
        (take ctx (buf_bytes b) @ xs @ drop (ctx + length xs) (buf_bytes b)) ! i" .
  qed
  with d(1) inv' show ?thesis by (auto simp: p_def)
qed

lemma out_begin_arr_ok:
  assumes "buf_inv out"
  shows "\<exists>o1. out_begin_arr out = Inr (o1, size_buf out + 1) \<and>
           extends out (enc_arr 0) o1 \<and> size_buf o1 = size_buf out + 5"
proof -
  from append_extends[OF assms, of "[TAG_ARR]"] obtain o1 where
    1: "append out [TAG_ARR] = Inr o1" "extends out [TAG_ARR] o1" by blast
  from append_extends[OF extends_inv[OF 1(2)], of "le_bytes 4 (0 :: u32)"]
  obtain o2 where 2: "append o1 (le_bytes 4 (0 :: u32)) = Inr o2"
    "extends o1 (le_bytes 4 (0 :: u32)) o2" by blast
  have e: "extends out (enc_arr 0) o2"
    using extends_trans[OF 1(2) 2(2)] by (simp add: enc_arr_def)
  have "size_buf o2 = size_buf out + 5"
    using arg_cong[OF extends_bytes[OF e], of length] by (simp add: enc_arr_def)
  then show ?thesis using 1(1) 2(1) e
    by (simp add: out_begin_arr_def append_u8_def append_u32_def)
qed

lemma out_end_arr_ok:
  assumes inv: "buf_inv b" and ctx: "0 < ctx" "ctx + 4 \<le> size_buf b"
    and tag: "buf_bytes b ! (ctx - 1) = TAG_ARR"
    and cont: "(head b + ctx) mod capacity b + 4 \<le> capacity b"
  shows "\<exists>b'. out_end_arr b ctx n = Inr b' \<and> buf_inv b' \<and>
           buf_bytes b' = take ctx (buf_bytes b) @ le_bytes 4 n @ drop (ctx + 4) (buf_bytes b)"
proof -
  from inv have h: "0 < capacity b" "length (data b) = capacity b"
    by (auto simp: buf_inv_alt)
  have q: "(head b + (ctx - 1)) mod capacity b < length (data b)" using h by simp
  have t: "data b ! ((head b + (ctx - 1)) mod capacity b) = TAG_ARR"
    using tag ctx by (simp add: buf_bytes_nth)
  from patch_ok[OF inv, of ctx "le_bytes 4 n"] ctx cont obtain d where
    d: "memcpy (data b) ((head b + ctx) mod capacity b) (le_bytes 4 n) 0 4 = Inr d"
       "buf_inv (b\<lparr>data := d\<rparr>)"
       "buf_bytes (b\<lparr>data := d\<rparr>) =
          take ctx (buf_bytes b) @ le_bytes 4 n @ drop (ctx + 4) (buf_bytes b)"
    by auto
  show ?thesis using h q t d ctx
    by (simp add: out_end_arr_def index_ref_def)
qed

lemma zquery_start:
  "\<exists>i. znode_offset z (zset_seekge z score name) offset = (if i < length z then Some i else None) \<and>
       drop i z = zquery_from z score name offset"
proof -
  define i0 where "i0 = length (takeWhile (\<lambda>p. zkey p < (dbl_key score, name)) z)"
  define i where "i = (if i0 < length z \<and> 0 \<le> int i0 + offset then nat (int i0 + offset)
                      else length z)"
  have "znode_offset z (zset_seekge z score name) offset = (if i < length z then Some i else None)"
    by (auto simp: znode_offset_def zset_seekge_def Let_def i0_def[symmetric] i_def)
  moreover have "drop i z = zquery_from z score name offset"
    by (simp add: zquery_from_def Let_def i0_def[symmetric] i_def)
  ultimately show ?thesis by blast
qed

lemma zquery_arr_branch:
  assumes out: "buf_inv out" and lim: "0 < limit"
    and beg: "out_begin_arr out = Inr (o1, ctx)"
    and cont: "(head o1 + ctx) mod capacity o1 + 4 \<le> capacity o1"
  shows "\<exists>o3. bindE (out_begin_arr out)
           (\<lambda>(o1, ctx). bindE (zquery_loop z (znode_offset z (zset_seekge z score name) offset)
                                   0 limit o1)
              (\<lambda>(o2, n). out_end_arr o2 ctx (word_of_int n))) = Inr o3 \<and>
          buf_bytes o3 = buf_bytes out @ zquery_arr z score name offset limit"
proof -
  from out_begin_arr_ok[OF out] beg have
    ctx: "ctx = size_buf out + 1" and e1: "extends out (enc_arr 0) o1" and
    s1: "size_buf o1 = size_buf out + 5"
    by auto
  from zquery_start[of z score name offset] obtain i where
    i: "znode_offset z (zset_seekge z score name) offset = (if i < length z then Some i else None)"
       "drop i z = zquery_from z score name offset" by blast
  define ps where "ps = zquery_pairs z score name offset limit"
  have ps: "take (nat ((limit - 0 + 1) div 2)) (drop i z) = ps"
    by (simp add: ps_def zquery_pairs_def i(2))
  from zquery_loop_ok[OF extends_inv[OF e1], of z i 0 limit] obtain o2 where
    lp: "zquery_loop z (if i < length z then Some i else None) 0 limit o1 =
           Inr (o2, 0 + 2 * int (length ps))"
    and e2: "extends o1 (enc_pairs ps) o2"
    unfolding ps by blast
  have b2: "buf_bytes o2 = buf_bytes out @ enc_arr 0 @ enc_pairs ps"
    using extends_bytes[OF e1] extends_bytes[OF e2] by simp
  have inv2: "buf_inv o2" by (rule extends_inv[OF e2])
  have s2: "size_buf o2 = size_buf out + 5 + length (enc_pairs ps)"
    using arg_cong[OF b2, of length] by (simp add: enc_arr_def)
  have tag: "buf_bytes o2 ! (ctx - 1) = TAG_ARR"
    by (simp add: b2 ctx nth_append enc_arr_def)
  have cont2: "(head o2 + ctx) mod capacity o2 + 4 \<le> capacity o2"
  proof -
    from e2 have "head o2 = 0 \<or> head o2 = head o1 \<and> capacity o2 = capacity o1"
      by (simp add: extends_def)
    then show ?thesis
    proof
      assume "head o2 = 0"
      moreover from inv2 have "size_buf o2 \<le> capacity o2" by (simp add: buf_inv_def)
      ultimately show ?thesis using s2 ctx by simp
    next
      assume "head o2 = head o1 \<and> capacity o2 = capacity o1"
      with cont show ?thesis by simp
    qed
  qed
  from out_end_arr_ok[OF inv2 _ _ tag cont2, of "word_of_int (0 + 2 * int (length ps))"]
  obtain o3 where
    o3: "out_end_arr o2 ctx (word_of_int (0 + 2 * int (length ps))) = Inr o3"
        "buf_bytes o3 = take ctx (buf_bytes o2) @
           le_bytes 4 (word_of_int (0 + 2 * int (length ps)) :: u32) @ drop (ctx + 4) (buf_bytes o2)"
    using ctx s2 by auto
  have w: "(word_of_int (0 + 2 * int (length ps)) :: u32) = word_of_nat (2 * length ps)"
    by simp
  have "buf_bytes o3 = buf_bytes out @ enc_arr (word_of_nat (2 * length ps)) @ enc_pairs ps"
    unfolding o3(2) w by (simp add: b2 ctx enc_arr_def)
  then have "buf_bytes o3 = buf_bytes out @ zquery_arr z score name offset limit"
    using lim by (simp add: zquery_arr_def ps_def Let_def)
  then show ?thesis using beg i(1) lp o3(1) by simp
qed

lemma do_zquery_bytes:
  assumes sc: "str2dbl E (cmd ! 2) = Some score"
    and off: "str2int E (cmd ! 4) = Some offset" and lim: "str2int E (cmd ! 5) = Some limit"
    and out: "buf_inv out"
    and beg: "out_begin_arr out = Inr (o1, ctx)"
    and cont: "(head o1 + ctx) mod capacity o1 + 4 \<le> capacity o1"
  shows "bytes_written (do_zquery E s cmd out) =
           Inr (buf_bytes out @ zquery_reply s (cmd ! 1) score (cmd ! 3) offset limit)"
proof -
  have err: "bytes_written (out_err out ERR_BAD_TYP (bytes_of ''expect zset'')) =
      Inr (buf_bytes out @ enc_err ERR_BAD_TYP (bytes_of ''expect zset''))"
    using out_err_ok[OF out, of ERR_BAD_TYP "bytes_of ''expect zset''"]
    by (auto simp: bytes_written_def extends_def)
  have arr: "bytes_written
        (if limit \<le> 0 then out_arr out 0
         else (let znode = znode_offset z (zset_seekge z score (cmd ! 3)) offset in
               bindE (out_begin_arr out)
                 (\<lambda>(o1, ctx). bindE (zquery_loop z znode 0 limit o1)
                    (\<lambda>(o2, n). out_end_arr o2 ctx (word_of_int n))))) =
      Inr (buf_bytes out @ zquery_arr z score (cmd ! 3) offset limit)" for z
  proof (cases "limit \<le> 0")
    case True
    then show ?thesis using out_arr_ok[OF out, of 0]
      by (auto simp: bytes_written_def extends_def zquery_arr_def)
  next
    case False
    then have "0 < limit" by simp
    from zquery_arr_branch[OF out this beg cont, of z score "cmd ! 3" offset] False
    show ?thesis by (auto simp: bytes_written_def Let_def)
  qed
  show ?thesis
  proof (cases "hm_lookup (db s) (cmd ! 1)")
    case None
    then show ?thesis using arr[of "[]"]
      by (simp add: do_zquery_def sc off lim expect_zset_def k_empty_zset_def zquery_reply_def)
  next
    case (Some ent)
    show ?thesis
    proof (cases "etype ent = T_ZSET")
      case True
      then show ?thesis using arr[of "zset ent"] Some
        by (simp add: do_zquery_def sc off lim expect_zset_def zquery_reply_def)
    next
      case False
      then show ?thesis using err Some
        by (simp add: do_zquery_def sc off lim expect_zset_def zquery_reply_def)
    qed
  qed
qed

lemma zquery_from_nonneg:
  "0 \<le> offset \<Longrightarrow>
   zquery_from z score name offset =
     drop (nat offset) (dropWhile (\<lambda>p. zkey p < (dbl_key score, name)) z)"
proof -
  assume o: "0 \<le> offset"
  define P where "P = (\<lambda>p. zkey p < (dbl_key score, name))"
  have d: "dropWhile P z = drop (length (takeWhile P z)) z"
    by (rule dropWhile_eq_drop)
  have l: "length (takeWhile P z) \<le> length z" by (rule length_takeWhile_le)
  show ?thesis
  proof (cases "length (takeWhile P z) < length z")
    case True
    then show ?thesis using o
      by (simp add: zquery_from_def Let_def P_def[symmetric] d nat_add_distrib add.commute)
  next
    case False
    with l have "length (takeWhile P z) = length z" by simp
    then show ?thesis using o
      by (simp add: zquery_from_def Let_def P_def[symmetric] d)
  qed
qed

lemma zquery_pairs_sorted:
  assumes "sorted (map zkey z)"
  shows "sorted (map zkey (zquery_pairs z score name offset limit))"
proof -
  have "sorted (map zkey (drop i z))" for i
    using assms by (simp add: drop_map[symmetric] sorted_wrt_drop)
  then have "sorted (map zkey (zquery_from z score name offset))"
    by (simp add: zquery_from_def Let_def)
  then show ?thesis
    by (simp add: zquery_pairs_def take_map[symmetric] sorted_wrt_take)
qed

lemma zquery_pairs_ge:
  assumes "sorted (map zkey z)" and "0 \<le> offset"
    and "p \<in> set (zquery_pairs z score name offset limit)"
  shows "(dbl_key score, name) \<le> zkey p"
proof -
  define P where "P = (\<lambda>p. zkey p < (dbl_key score, name))"
  from assms(3) have "p \<in> set (dropWhile P z)"
    unfolding zquery_pairs_def zquery_from_nonneg[OF assms(2)] P_def[symmetric]
    by (auto dest!: in_set_takeD in_set_dropD)
  then obtain a rest where dw: "dropWhile P z = a # rest" and p: "p \<in> set (a # rest)"
    by (cases "dropWhile P z") auto
  have "sorted (map zkey (dropWhile P z))"
    using assms(1) by (simp add: dropWhile_eq_drop drop_map[symmetric] sorted_wrt_drop)
  with dw have le: "\<forall>x \<in> set rest. zkey a \<le> zkey x" by simp
  have "dropWhile P z \<noteq> []" using dw by simp
  then have "\<not> P (hd (dropWhile P z))" by (rule hd_dropWhile)
  with dw have a: "(dbl_key score, name) \<le> zkey a" by (simp add: P_def not_less)
  from p le have "zkey a \<le> zkey p" by auto
  with a show ?thesis by (rule order_trans)
qed

lemma begin_arr_linear:
  assumes "buf_inv out" and "head out = 0"
  shows "\<exists>o1. out_begin_arr out = Inr (o1, size_buf out + 1) \<and>
           (head o1 + (size_buf out + 1)) mod capacity o1 + 4 \<le> capacity o1"
proof -
  from out_begin_arr_ok[OF assms(1)] obtain o1 where
    o1: "out_begin_arr out = Inr (o1, size_buf out + 1)" "extends out (enc_arr 0) o1"
        "size_buf o1 = size_buf out + 5" by blast
  from o1(2) assms(2) have "head o1 = 0" "buf_inv o1" by (auto simp: extends_def)
  then have "(head o1 + (size_buf out + 1)) mod capacity o1 + 4 \<le> capacity o1"
    using o1(3) by (simp add: buf_inv_def)
  with o1(1) show ?thesis by blast
qed

text \<open>
  Claim C2, as the code has it. For a \<open>zquery\<close> whose score, offset and limit parse, and an
  output buffer where the four bytes of the array count that \<^verbatim>\<open>out_begin_arr\<close> reserves lie
  in one piece of the storage, \<^verbatim>\<open>do_zquery\<close> appends exactly \<open>zquery_reply\<close>:
  \<open>ERR(BAD_TYP)\<close> when the key holds another type (also when \<open>limit \<le> 0\<close>); else an empty
  array when \<open>limit \<le> 0\<close>; else the flattened array of \<open>zquery_pairs\<close>, with a key that
  does not exist as the empty set. For \<open>offset \<ge> 0\<close> these pairs are the first
  \<open>(limit + 1) div 2\<close> of the set after the nodes below (score, name) and \<open>offset\<close> more
  are dropped, and they are in the order of the set, (score, name) ascending.
\<close>

theorem zquery_reply_bytes:
  assumes "str2dbl E (cmd ! 2) = Some score"
    and "str2int E (cmd ! 4) = Some offset" and "str2int E (cmd ! 5) = Some limit"
    and "buf_inv out"
    and "out_begin_arr out = Inr (o1, ctx)"
    and "(head o1 + ctx) mod capacity o1 + 4 \<le> capacity o1"
  shows "bytes_written (do_zquery E s cmd out) =
           Inr (buf_bytes out @ zquery_reply s (cmd ! 1) score (cmd ! 3) offset limit) \<and>
         (0 \<le> offset \<longrightarrow>
            zquery_pairs z score name offset limit =
              take (nat ((limit + 1) div 2))
                (drop (nat offset) (dropWhile (\<lambda>p. zkey p < (dbl_key score, name)) z))) \<and>
         (sorted (map zkey z) \<longrightarrow> sorted (map zkey (zquery_pairs z score name offset limit)))"
proof -
  have "bytes_written (do_zquery E s cmd out) =
           Inr (buf_bytes out @ zquery_reply s (cmd ! 1) score (cmd ! 3) offset limit)"
    using assms by (rule do_zquery_bytes)
  moreover have "0 \<le> offset \<longrightarrow>
            zquery_pairs z score name offset limit =
              take (nat ((limit + 1) div 2))
                (drop (nat offset) (dropWhile (\<lambda>p. zkey p < (dbl_key score, name)) z))"
    by (simp add: zquery_pairs_def zquery_from_nonneg)
  moreover have "sorted (map zkey z) \<longrightarrow> sorted (map zkey (zquery_pairs z score name offset limit))"
    by (simp add: zquery_pairs_sorted)
  ultimately show ?thesis by blast
qed

text \<open>
  The doubles 1.0 and 2.0, a sorted set of two pairs under the key \<open>k\<close>, and two queries
  from (1.0, "") with offset 0: one with limit 2 and one with limit 0.
\<close>

definition dbl_one :: dbl where
  "dbl_one = 0x3FF0000000000000"

definition dbl_two :: dbl where
  "dbl_two = 0x4000000000000000"

definition two_zset :: ZSet where
  "two_zset = [(bytes_of ''a'', dbl_one), (bytes_of ''b'', dbl_two)]"

definition state_two :: g_data where
  "state_two = state0\<lparr>db := [(bytes_of ''k'',
     \<lparr>key = bytes_of ''k'', heap_idx = no_heap_idx, etype = T_ZSET, str = [], zset = two_zset\<rparr>)]\<rparr>"

definition zquery_cmd :: "bytes list" where
  "zquery_cmd = [bytes_of ''zquery'', bytes_of ''k'', bytes_of ''1'', [], bytes_of ''0'', bytes_of ''2'']"

definition zquery_cmd0 :: "bytes list" where
  "zquery_cmd0 = [bytes_of ''zquery'', bytes_of ''k'', bytes_of ''1'', [], bytes_of ''0'', bytes_of ''0'']"

text \<open>
  The pairs of the reply in the words of claim C2: up to \<open>limit\<close> pairs, from the first
  element not below (score, name), after \<open>offset\<close> elements are skipped.
\<close>

definition claimed_zquery_pairs :: "ZSet \<Rightarrow> dbl \<Rightarrow> bytes \<Rightarrow> int \<Rightarrow> int \<Rightarrow> ZSet" where
  "claimed_zquery_pairs z score name offset limit =
     take (nat limit) (drop (nat offset) (dropWhile (\<lambda>p. zkey p < (dbl_key score, name)) z))"

lemma env0_parse:
  "str2dbl env0 (bytes_of ''1'') = Some dbl_one" "str2int env0 (bytes_of ''0'') = Some 0"
  "str2int env0 (bytes_of ''2'') = Some 2"
  by (simp_all add: str2dbl_def str2int_def env0_def bytes_of_def isnan_def dbl_one_def)

lemma dbl_keys: "dbl_key dbl_one < dbl_key dbl_two"
  by (simp add: dbl_key_def dbl_one_def dbl_two_def)

lemma two_zset_sorted: "sorted (map zkey two_zset)"
  using dbl_keys by (simp add: two_zset_def zkey_def)

lemma pairs_two: "zquery_pairs two_zset dbl_one [] 0 2 = [(bytes_of ''a'', dbl_one)]"
  by (simp add: zquery_pairs_def zquery_from_def two_zset_def zkey_def)

lemma claimed_two: "claimed_zquery_pairs two_zset dbl_one [] 0 2 = two_zset"
  by (simp add: claimed_zquery_pairs_def two_zset_def zkey_def)

lemma Buffer_default_head: "head Buffer_default = 0" "size_buf Buffer_default = 0"
  by (simp_all add: Buffer_default_def Buffer_init_def)

theorem zquery_reply_bytes_witness:
  "str2dbl env0 (zquery_cmd ! 2) = Some dbl_one \<and> str2int env0 (zquery_cmd ! 4) = Some 0 \<and>
   str2int env0 (zquery_cmd ! 5) = Some 2 \<and> buf_inv Buffer_default \<and>
   (\<exists>o1. out_begin_arr Buffer_default = Inr (o1, 1) \<and>
      (head o1 + 1) mod capacity o1 + 4 \<le> capacity o1) \<and>
   bytes_written (do_zquery env0 state_two zquery_cmd Buffer_default) =
     Inr (enc_arr 2 @ enc_str (bytes_of ''a'') @ enc_dbl dbl_one) \<and>
   sorted (map zkey two_zset) \<and> sorted (map zkey (zquery_pairs two_zset dbl_one [] 0 2))"
proof -
  have p: "str2dbl env0 (zquery_cmd ! 2) = Some dbl_one" "str2int env0 (zquery_cmd ! 4) = Some 0"
    "str2int env0 (zquery_cmd ! 5) = Some 2"
    by (simp_all add: zquery_cmd_def env0_parse)
  from begin_arr_linear[OF Buffer_default_inv(1) Buffer_default_head(1)] obtain o1 where
    o1: "out_begin_arr Buffer_default = Inr (o1, 1)" "(head o1 + 1) mod capacity o1 + 4 \<le> capacity o1"
    by (auto simp: Buffer_default_head)
  have r: "zquery_reply state_two (zquery_cmd ! 1) dbl_one (zquery_cmd ! 3) 0 2 =
      enc_arr 2 @ enc_str (bytes_of ''a'') @ enc_dbl dbl_one"
    by (simp add: zquery_reply_def state_two_def state0_def zquery_cmd_def hm_lookup_def
        zquery_arr_def pairs_two enc_pairs_def)
  from zquery_reply_bytes[OF p Buffer_default_inv(1) o1, of state_two two_zset "[]"]
  show ?thesis using p o1 r two_zset_sorted by (auto simp: Buffer_default_inv)
qed

text \<open>
  Claim C2 as stated fails twice. With limit 2 and two pairs in the set, both not below
  (1.0, ""), the claim gives both pairs; the reply holds one, since the first pair takes the
  count to 2. With limit 0 and a key that holds a string, the claim gives an empty array;
  the reply is \<open>ERR(BAD_TYP)\<close>, since the type is tested first.
\<close>

theorem zquery_reply_counterexample:
  "bytes_written (do_zquery env0 state_two zquery_cmd Buffer_default) =
     Inr (enc_arr 2 @ enc_pairs [(bytes_of ''a'', dbl_one)]) \<and>
   claimed_zquery_pairs two_zset dbl_one [] 0 2 = [(bytes_of ''a'', dbl_one), (bytes_of ''b'', dbl_two)] \<and>
   bytes_written (do_zquery env0 state_ttl zquery_cmd0 Buffer_default) =
     Inr (enc_err ERR_BAD_TYP (bytes_of ''expect zset'')) \<and>
   enc_err ERR_BAD_TYP (bytes_of ''expect zset'') \<noteq> enc_arr 0"
proof -
  have p: "str2dbl env0 (zquery_cmd ! 2) = Some dbl_one" "str2int env0 (zquery_cmd ! 4) = Some 0"
    "str2int env0 (zquery_cmd ! 5) = Some 2"
    by (simp_all add: zquery_cmd_def env0_parse)
  have p0: "str2dbl env0 (zquery_cmd0 ! 2) = Some dbl_one" "str2int env0 (zquery_cmd0 ! 4) = Some 0"
    "str2int env0 (zquery_cmd0 ! 5) = Some 0"
    by (simp_all add: zquery_cmd0_def env0_parse)
  from begin_arr_linear[OF Buffer_default_inv(1) Buffer_default_head(1)] obtain o1 where
    o1: "out_begin_arr Buffer_default = Inr (o1, 1)" "(head o1 + 1) mod capacity o1 + 4 \<le> capacity o1"
    by (auto simp: Buffer_default_head)
  have r: "zquery_reply state_two (zquery_cmd ! 1) dbl_one (zquery_cmd ! 3) 0 2 =
      enc_arr 2 @ enc_pairs [(bytes_of ''a'', dbl_one)]"
    by (simp add: zquery_reply_def state_two_def state0_def zquery_cmd_def hm_lookup_def
        zquery_arr_def pairs_two)
  have r0: "zquery_reply state_ttl (zquery_cmd0 ! 1) dbl_one (zquery_cmd0 ! 3) 0 0 =
      enc_err ERR_BAD_TYP (bytes_of ''expect zset'')"
    by (simp add: zquery_reply_def state_ttl_def state0_def zquery_cmd0_def hm_lookup_def
        ttl_entry_def)
  have ne: "enc_err ERR_BAD_TYP (bytes_of ''expect zset'') \<noteq> enc_arr 0"
    by (simp add: enc_err_def enc_arr_def TAG_ERR_def TAG_ARR_def)
  from do_zquery_bytes[OF p Buffer_default_inv(1) o1, of state_two]
    do_zquery_bytes[OF p0 Buffer_default_inv(1) o1, of state_ttl]
  show ?thesis using r r0 ne claimed_two by (simp add: Buffer_default_inv two_zset_def)
qed

section \<open>Expiry of keys\<close>

text \<open>
  The heap and the table are in sync when every heap item points to the \<open>heap_idx\<close> field
  of an entry that the table holds under the key the item names, and the field holds the
  position of the item.
\<close>

definition heap_synced :: "HeapItem list \<Rightarrow> HMap \<Rightarrow> bool" where
  "heap_synced a m =
     (\<forall>i < length a. \<exists>e. hm_lookup m (ref (a ! i)) = Some e \<and> heap_idx e = i \<and>
                              key e = ref (a ! i))"

text \<open>
  A table of \<open>n\<close> string keys \<open>ttl_key 0\<close>, ..., \<open>ttl_key (n - 1)\<close> (key \<open>i\<close> is \<open>i + 1\<close> zero
  bytes), each with the deadline 0 ms, and the heap of their deadlines.
\<close>

definition ttl_key :: "nat \<Rightarrow> bytes" where
  "ttl_key i = replicate (Suc i) 0"

definition expired_entry :: "nat \<Rightarrow> Entry" where
  "expired_entry i = \<lparr>key = ttl_key i, heap_idx = i, etype = T_STR, str = [], zset = []\<rparr>"

definition expired_state :: "nat \<Rightarrow> g_data" where
  "expired_state n = state0\<lparr>db := map (\<lambda>i. (ttl_key i, expired_entry i)) [0..<n],
                             heap := map (\<lambda>i. \<lparr>val = 0, ref = ttl_key i\<rparr>) [0..<n]\<rparr>"

lemma hm_put_keys: "map fst (hm_put m k e) = map fst m"
  by (induction m) (auto simp: hm_put_def)

lemma set_heap_idx_keys: "map fst (set_heap_idx m r pos) = map fst m"
  by (simp add: set_heap_idx_def hm_put_keys split: option.splits)

lemma hm_lookup_set_heap_idx:
  "hm_lookup (set_heap_idx m r pos) k =
     (if k = r then map_option (\<lambda>e. e\<lparr>heap_idx := pos\<rparr>) (hm_lookup m r) else hm_lookup m k)"
  by (auto simp: set_heap_idx_def hm_lookup_put split: option.splits)

lemma set_heap_idx_same:
  "hm_lookup m r = Some e \<Longrightarrow> key e = r \<Longrightarrow>
     \<exists>e'. hm_lookup (set_heap_idx m r pos) r = Some e' \<and> heap_idx e' = pos \<and> key e' = r"
  by (simp add: hm_lookup_set_heap_idx)

lemma set_heap_idx_other:
  "k \<noteq> r \<Longrightarrow> hm_lookup (set_heap_idx m r pos) k = hm_lookup m k"
  by (simp add: hm_lookup_set_heap_idx)

lemma heap_down_sync:
  assumes "pos < len" and "len = length a"
    and "\<forall>i<len. i \<noteq> pos \<longrightarrow>
           (\<exists>e. hm_lookup m (ref (a ! i)) = Some e \<and> heap_idx e = i \<and> key e = ref (a ! i))"
    and "\<exists>e. hm_lookup m (ref t) = Some e \<and> key e = ref t"
    and "\<forall>i<len. i \<noteq> pos \<longrightarrow> ref (a ! i) \<noteq> ref t"
  shows "length (fst (heap_down a m pos len t)) = length a \<and>
         heap_synced (fst (heap_down a m pos len t)) (snd (heap_down a m pos len t)) \<and>
         map fst (snd (heap_down a m pos len t)) = map fst m \<and>
         set (fst (heap_down a m pos len t)) \<subseteq> insert t (set a)"
  using assms
proof (induction a m pos len t rule: heap_down.induct)
  case (1 a m pos len t)
  define mp where "mp = heap_min_pos a pos len t"
  note len = \<open>len = length a\<close>
  note pos = \<open>pos < len\<close>
  have sy: "\<And>i. i < len \<Longrightarrow> i \<noteq> pos \<Longrightarrow>
      \<exists>e. hm_lookup m (ref (a ! i)) = Some e \<and> heap_idx e = i \<and> key e = ref (a ! i)"
    using "1.prems"(3) by blast
  have fresh: "\<And>i. i < len \<Longrightarrow> i \<noteq> pos \<Longrightarrow> ref (a ! i) \<noteq> ref t"
    using "1.prems"(5) by blast
  from "1.prems"(4) obtain et where et: "hm_lookup m (ref t) = Some et" "key et = ref t"
    by blast
  show ?case
  proof (cases "mp = pos \<or> mp \<le> pos \<or> len \<le> mp")
    case True
    then have hd: "heap_down a m pos len t = (a[pos := t], set_heap_idx m (ref t) pos)"
      by (subst heap_down.simps) (simp add: mp_def Let_def)
    have "heap_synced (a[pos := t]) (set_heap_idx m (ref t) pos)"
      unfolding heap_synced_def
    proof (intro allI impI)
      fix i assume "i < length (a[pos := t])"
      then have i: "i < len" using len by simp
      show "\<exists>e. hm_lookup (set_heap_idx m (ref t) pos) (ref (a[pos := t] ! i)) = Some e \<and>
                heap_idx e = i \<and> key e = ref (a[pos := t] ! i)"
      proof (cases "i = pos")
        case True
        have "a[pos := t] ! i = t" using True pos len by simp
        with set_heap_idx_same[OF et, of pos] True show ?thesis by simp
      next
        case False
        then have "a[pos := t] ! i = a ! i" by simp
        with sy[OF i False] set_heap_idx_other[OF fresh[OF i False], of m pos]
        show ?thesis by simp
      qed
    qed
    moreover have "set (a[pos := t]) \<subseteq> insert t (set a)" by (rule set_update_subset_insert)
    ultimately show ?thesis by (simp add: hd set_heap_idx_keys)
  next
    case False
    then have mp: "mp \<noteq> pos" "pos < mp" "mp < len" by auto
    define a1 where "a1 = a[pos := a ! mp]"
    define m1 where "m1 = set_heap_idx m (ref (a ! mp)) pos"
    from False have hd: "heap_down a m pos len t = heap_down a1 m1 mp len t"
      by (subst heap_down.simps) (simp add: mp_def Let_def a1_def m1_def)
    from sy[OF mp(3) mp(1)] obtain em where
      em: "hm_lookup m (ref (a ! mp)) = Some em" "heap_idx em = mp" "key em = ref (a ! mp)"
      by blast
    have p3: "\<forall>i<len. i \<noteq> mp \<longrightarrow>
        (\<exists>e. hm_lookup m1 (ref (a1 ! i)) = Some e \<and> heap_idx e = i \<and> key e = ref (a1 ! i))"
    proof (intro allI impI)
      fix i assume i: "i < len" "i \<noteq> mp"
      show "\<exists>e. hm_lookup m1 (ref (a1 ! i)) = Some e \<and> heap_idx e = i \<and> key e = ref (a1 ! i)"
      proof (cases "i = pos")
        case True
        have "a1 ! i = a ! mp" using True pos len by (simp add: a1_def)
        with set_heap_idx_same[OF em(1,3), of pos] True show ?thesis by (simp add: m1_def)
      next
        case F: False
        from sy[OF i(1) F] obtain e where
          e: "hm_lookup m (ref (a ! i)) = Some e" "heap_idx e = i" "key e = ref (a ! i)"
          by blast
        have ne: "ref (a ! i) \<noteq> ref (a ! mp)"
        proof
          assume "ref (a ! i) = ref (a ! mp)"
          with e(1) em(1) have "e = em" by simp
          with e(2) em(2) i(2) show False by simp
        qed
        have "a1 ! i = a ! i" using F by (simp add: a1_def)
        with e set_heap_idx_other[OF ne, of m pos] show ?thesis by (simp add: m1_def)
      qed
    qed
    have "ref t \<noteq> ref (a ! mp)" using fresh[OF mp(3) mp(1)] by simp
    from set_heap_idx_other[OF this, of m pos] et
    have p4: "\<exists>e. hm_lookup m1 (ref t) = Some e \<and> key e = ref t"
      by (simp add: m1_def)
    have p5: "\<forall>i<len. i \<noteq> mp \<longrightarrow> ref (a1 ! i) \<noteq> ref t"
    proof (intro allI impI)
      fix i assume i: "i < len" "i \<noteq> mp"
      show "ref (a1 ! i) \<noteq> ref t"
      proof (cases "i = pos")
        case True
        have "a1 ! i = a ! mp" using True pos len by (simp add: a1_def)
        with fresh[OF mp(3) mp(1)] show ?thesis by simp
      next
        case F: False
        then have "a1 ! i = a ! i" by (simp add: a1_def)
        with fresh[OF i(1) F] show ?thesis by simp
      qed
    qed
    have l: "len = length a1" using len by (simp add: a1_def)
    from "1.IH"[OF mp_def False mp(3)] l p3 p4 p5
    have ih: "length (fst (heap_down a1 m1 mp len t)) = length a1 \<and>
         heap_synced (fst (heap_down a1 m1 mp len t)) (snd (heap_down a1 m1 mp len t)) \<and>
         map fst (snd (heap_down a1 m1 mp len t)) = map fst m1 \<and>
         set (fst (heap_down a1 m1 mp len t)) \<subseteq> insert t (set a1)"
      unfolding a1_def m1_def by blast
    have "a ! mp \<in> set a" using mp(3) len by simp
    then have "set a1 \<subseteq> set a"
      using set_update_subset_insert[of a pos "a ! mp"] by (auto simp: a1_def)
    with ih have "set (fst (heap_down a1 m1 mp len t)) \<subseteq> insert t (set a)" by blast
    moreover have "length a1 = length a" by (simp add: a1_def)
    moreover have "map fst m1 = map fst m" by (simp add: m1_def set_heap_idx_keys)
    ultimately show ?thesis using ih by (simp add: hd)
  qed
qed

lemma hm_lookup_delete:
  "hm_lookup (hm_delete m k) k' = (if k' = k then None else hm_lookup m k')"
  by (induction m) (auto simp: hm_lookup_def hm_delete_def)

lemma hm_delete_length:
  "distinct (map fst m) \<Longrightarrow> hm_lookup m k = Some e \<Longrightarrow> length (hm_delete m k) + 1 = length m"
proof (induction m)
  case Nil
  then show ?case by (simp add: hm_lookup_def)
next
  case (Cons p m)
  show ?case
  proof (cases "fst p = k")
    case True
    with Cons.prems(1) have "k \<notin> fst ` set m" by simp
    then have "filter (\<lambda>q. fst q \<noteq> k) m = m"
      by (intro filter_True) force
    with True show ?thesis by (simp add: hm_delete_def)
  next
    case False
    with Cons show ?thesis by (auto simp: hm_delete_def hm_lookup_def)
  qed
qed

lemma hm_delete_distinct: "distinct (map fst m) \<Longrightarrow> distinct (map fst (hm_delete m k))"
  by (simp add: hm_delete_def distinct_map_filter)

lemma ttl_step:
  assumes sy: "heap_synced (heap s) (db s)"
    and di: "distinct (map fst (db s))"
    and ne: "heap s \<noteq> []"
    and lk: "hm_lookup (db s) (ref (heap s ! 0)) = Some ent"
  shows "\<exists>s1. entry_del E (s\<lparr>db := hm_delete (db s) (ref (heap s ! 0))\<rparr>) ent = Inr s1 \<and>
           heap_synced (heap s1) (db s1) \<and> distinct (map fst (db s1)) \<and>
           length (db s1) + 1 = length (db s) \<and> length (heap s1) + 1 = length (heap s) \<and>
           set (heap s1) \<subseteq> set (heap s)"
proof -
  define a where "a = heap s"
  define r where "r = ref (a ! 0)"
  define m where "m = hm_delete (db s) r"
  define n where "n = length a"
  have n: "0 < n" using ne by (simp add: n_def a_def)
  from sy n have "\<exists>e. hm_lookup (db s) (ref (heap s ! 0)) = Some e \<and> heap_idx e = 0 \<and>
      key e = ref (heap s ! 0)"
    unfolding heap_synced_def n_def a_def by blast
  with lk have ent: "heap_idx ent = 0" "key ent = r"
    by (simp_all add: r_def a_def)
  have sy': "\<And>i. i < n \<Longrightarrow> \<exists>e. hm_lookup (db s) (ref (a ! i)) = Some e \<and> heap_idx e = i \<and>
                 key e = ref (a ! i)"
    using sy unfolding heap_synced_def a_def n_def by blast
  have other: "\<And>i j. i < n \<Longrightarrow> j < n \<Longrightarrow> i \<noteq> j \<Longrightarrow> ref (a ! i) \<noteq> ref (a ! j)"
  proof
    fix i j assume ij: "i < n" "j < n" "i \<noteq> j" "ref (a ! i) = ref (a ! j)"
    from sy'[OF ij(1)] obtain e where e: "hm_lookup (db s) (ref (a ! i)) = Some e" "heap_idx e = i"
      by blast
    from sy'[OF ij(2)] obtain e' where e': "hm_lookup (db s) (ref (a ! j)) = Some e'"
      "heap_idx e' = j" by blast
    from e(1) e'(1) ij(4) have "e = e'" by simp
    with e(2) e'(2) ij(3) show False by simp
  qed
  have keep: "\<And>i. i < n \<Longrightarrow> i \<noteq> 0 \<Longrightarrow> hm_lookup m (ref (a ! i)) = hm_lookup (db s) (ref (a ! i))"
    using other[OF _ n] by (simp add: m_def hm_lookup_delete r_def)
  have gone: "hm_lookup m r = None" by (simp add: m_def hm_lookup_delete)
  have lm: "length m + 1 = length (db s)"
    using hm_delete_length[OF di lk] by (simp add: m_def r_def a_def)
  have dm: "distinct (map fst m)" using di by (simp add: m_def hm_delete_distinct)
  define a1 where "a1 = butlast (a[0 := last a])"
  have la1: "length a1 = n - 1" by (simp add: a1_def n_def)
  have a1n: "\<And>i. i < n - 1 \<Longrightarrow> a1 ! i = (if i = 0 then a ! (n - 1) else a ! i)"
    using n by (auto simp: a1_def nth_butlast n_def last_conv_nth nth_list_update)
  have ed: "entry_del E (s\<lparr>db := m\<rparr>) ent =
      bindE (heap_delete a m 0) (\<lambda>(a', m'). Inr (s\<lparr>heap := a', db := set_heap_idx m' r no_heap_idx\<rparr>))"
    by (simp add: entry_del_def entry_set_ttl_def ent no_heap_idx_def a_def)
  show ?thesis
  proof (cases "n = 1")
    case True
    then have "a1 = []" using la1 by simp
    moreover have "a \<noteq> []" using n by (auto simp: n_def)
    ultimately have hd: "heap_delete a m 0 = Inr ([], m)"
      by (simp add: heap_delete_def Let_def a1_def[symmetric])
    have "set_heap_idx m r no_heap_idx = m" using gone by (simp add: set_heap_idx_def)
    with hd ed True lm dm show ?thesis
      by (simp add: m_def[symmetric] r_def[symmetric] a_def[symmetric] n_def[symmetric]
          heap_synced_def flip: r_def)
  next
    case False
    with n have n2: "2 \<le> n" by simp
    define t where "t = a1 ! 0"
    have t: "t = a ! (n - 1)" using a1n[of 0] n2 by (simp add: t_def)
    define res where "res = heap_down a1 m 0 (n - 1) t"
    have ane: "a \<noteq> []" "a1 \<noteq> []" using n2 la1 by (auto simp: n_def)
    have hd: "heap_delete a m 0 = Inr res"
      using ane la1
      by (simp add: heap_delete_def Let_def a1_def[symmetric] heap_update_pos_def
          res_def t_def)
    have p3: "\<forall>i<n - 1. i \<noteq> 0 \<longrightarrow>
        (\<exists>e. hm_lookup m (ref (a1 ! i)) = Some e \<and> heap_idx e = i \<and> key e = ref (a1 ! i))"
    proof (intro allI impI)
      fix i assume i: "i < n - 1" "i \<noteq> 0"
      then have "i < n" by simp
      from sy'[OF this] keep[OF this i(2)] a1n[OF i(1)] i(2)
      show "\<exists>e. hm_lookup m (ref (a1 ! i)) = Some e \<and> heap_idx e = i \<and> key e = ref (a1 ! i)"
        by simp
    qed
    have n1: "n - 1 < n" "n - 1 \<noteq> 0" using n2 by simp_all
    have p4: "\<exists>e. hm_lookup m (ref t) = Some e \<and> key e = ref t"
      using keep[OF n1] sy'[OF n1(1)] by (auto simp: t)
    have p5: "\<forall>i<n - 1. i \<noteq> 0 \<longrightarrow> ref (a1 ! i) \<noteq> ref t"
    proof (intro allI impI)
      fix i assume i: "i < n - 1" "i \<noteq> 0"
      then have "i < n" "i \<noteq> n - 1" by simp_all
      from other[OF this(1) n1(1) this(2)] a1n[OF i(1)] i(2)
      show "ref (a1 ! i) \<noteq> ref t" by (simp add: t)
    qed
    have p1: "0 < n - 1" using n2 by simp
    from heap_down_sync[OF p1 la1[symmetric] p3 p4 p5]
    have post: "length (fst res) = n - 1" "heap_synced (fst res) (snd res)"
      "map fst (snd res) = map fst m" "set (fst res) \<subseteq> insert t (set a1)"
      by (simp_all add: res_def la1)
    have "r \<notin> fst ` set m" using gone by (simp add: hm_lookup_def map_of_eq_None_iff)
    then have "r \<notin> fst ` set (snd res)" using post(3) by (metis set_map)
    then have "hm_lookup (snd res) r = None" by (simp add: hm_lookup_def map_of_eq_None_iff)
    then have noop: "set_heap_idx (snd res) r no_heap_idx = snd res"
      by (simp add: set_heap_idx_def)
    have "set a1 \<subseteq> set a"
    proof
      fix x assume "x \<in> set a1"
      then obtain i where i: "i < n - 1" "x = a1 ! i" by (auto simp: in_set_conv_nth la1)
      with a1n[OF i(1)] n2 show "x \<in> set a" by (auto simp: n_def)
    qed
    moreover have "t \<in> set a" using n by (simp add: t n_def)
    ultimately have sub: "set (fst res) \<subseteq> set a" using post(4) by auto
    have lres: "length (snd res) = length m" using post(3) by (metis length_map)
    have dres: "distinct (map fst (snd res))" using post(3) dm by simp
    obtain a' m' where res: "res = (a', m')" by (cases res)
    from ed hd noop post sub lres dres lm n2 show ?thesis
      by (simp add: res m_def[symmetric] r_def[symmetric] a_def[symmetric] n_def[symmetric]
          flip: r_def)
  qed
qed

lemma ttl_loop_count:
  assumes "k_max_works - nworks = n" and "nworks \<le> k_max_works"
    and "heap_synced (heap s) (db s)" and "distinct (map fst (db s))"
    and "\<forall>x\<in>set (heap s). val x < now_ms E"
    and "k_max_works + 1 - nworks \<le> length (heap s)"
  shows "\<exists>s'. ttl_loop E s nworks = Inr s' \<and>
           length (db s') + (k_max_works + 1 - nworks) = length (db s) \<and>
           length (heap s') + (k_max_works + 1 - nworks) = length (heap s)"
  using assms
proof (induction n arbitrary: s nworks)
  case 0
  then have nw: "nworks = k_max_works" by simp
  from 0(6) nw have ne: "heap s \<noteq> []" by auto
  then have "heap s ! 0 \<in> set (heap s)" by simp
  with 0(5) have ex: "val (heap s ! 0) < now_ms E" by blast
  from 0(3) ne obtain ent where lk: "hm_lookup (db s) (ref (heap s ! 0)) = Some ent"
    unfolding heap_synced_def by blast
  from ttl_step[OF 0(3) 0(4) ne lk, of E] obtain s1 where
    s1: "entry_del E (s\<lparr>db := hm_delete (db s) (ref (heap s ! 0))\<rparr>) ent = Inr s1"
      "length (db s1) + 1 = length (db s)" "length (heap s1) + 1 = length (heap s)"
    by blast
  have "ttl_loop E s nworks = Inr s1"
    by (subst ttl_loop.simps) (simp add: ne ex lk s1(1) nw)
  with s1(2,3) nw show ?case by simp
next
  case (Suc n)
  then have nw: "nworks < k_max_works" by simp
  from Suc(7) nw have ne: "heap s \<noteq> []" by auto
  then have "heap s ! 0 \<in> set (heap s)" by simp
  with Suc(6) have ex: "val (heap s ! 0) < now_ms E" by blast
  from Suc(4) ne obtain ent where lk: "hm_lookup (db s) (ref (heap s ! 0)) = Some ent"
    unfolding heap_synced_def by blast
  from ttl_step[OF Suc(4) Suc(5) ne lk, of E] obtain s1 where
    s1: "entry_del E (s\<lparr>db := hm_delete (db s) (ref (heap s ! 0))\<rparr>) ent = Inr s1"
      "heap_synced (heap s1) (db s1)" "distinct (map fst (db s1))"
      "length (db s1) + 1 = length (db s)" "length (heap s1) + 1 = length (heap s)"
      "set (heap s1) \<subseteq> set (heap s)"
    by blast
  have step: "ttl_loop E s nworks = ttl_loop E s1 (nworks + 1)"
    using nw by (subst ttl_loop.simps) (simp add: ne ex lk s1(1))
  have a: "k_max_works - (nworks + 1) = n" using Suc(2) by simp
  have b: "nworks + 1 \<le> k_max_works" using nw by simp
  have c: "\<forall>x\<in>set (heap s1). val x < now_ms E" using Suc(6) s1(6) by blast
  have d: "k_max_works + 1 - (nworks + 1) \<le> length (heap s1)" using Suc(7) s1(5) by simp
  from Suc.IH[OF a b s1(2) s1(3) c d] obtain s' where
    s': "ttl_loop E s1 (nworks + 1) = Inr s'"
      "length (db s') + (k_max_works + 1 - (nworks + 1)) = length (db s1)"
      "length (heap s') + (k_max_works + 1 - (nworks + 1)) = length (heap s1)"
    by blast
  from s'(2) s1(4) nw have "length (db s') + (k_max_works + 1 - nworks) = length (db s)"
    by arith
  moreover from s'(3) s1(5) nw
  have "length (heap s') + (k_max_works + 1 - nworks) = length (heap s)"
    by arith
  ultimately show ?case using step s'(1) by simp
qed

lemma ttl_key_inj: "inj ttl_key"
proof (rule injI)
  fix i j assume "ttl_key i = ttl_key j"
  then have "length (ttl_key i) = length (ttl_key j)" by simp
  then show "i = j" by (simp add: ttl_key_def)
qed

lemma expired_lookup:
  "i < n \<Longrightarrow> hm_lookup (map (\<lambda>i. (ttl_key i, expired_entry i)) [0..<n]) (ttl_key i) =
     Some (expired_entry i)"
proof (induction n)
  case 0
  then show ?case by simp
next
  case (Suc n)
  show ?case
  proof (cases "i = n")
    case True
    have "ttl_key n \<notin> fst ` set (map (\<lambda>i. (ttl_key i, expired_entry i)) [0..<n])"
      by (auto dest: injD[OF ttl_key_inj])
    then have "map_of (map (\<lambda>i. (ttl_key i, expired_entry i)) [0..<n]) (ttl_key n) = None"
      by (simp add: map_of_eq_None_iff)
    with True show ?thesis by (simp add: hm_lookup_def map_add_def)
  next
    case False
    with Suc have "hm_lookup (map (\<lambda>i. (ttl_key i, expired_entry i)) [0..<n]) (ttl_key i) =
      Some (expired_entry i)" by simp
    then show ?thesis by (simp add: hm_lookup_def map_add_def)
  qed
qed

lemma expired_state_synced: "heap_synced (heap (expired_state n)) (db (expired_state n))"
  unfolding heap_synced_def
proof (intro allI impI)
  fix i assume "i < length (heap (expired_state n))"
  then have i: "i < n" by (simp add: expired_state_def)
  from expired_lookup[OF i] i
  show "\<exists>e. hm_lookup (db (expired_state n)) (ref (heap (expired_state n) ! i)) = Some e \<and>
            heap_idx e = i \<and> key e = ref (heap (expired_state n) ! i)"
    by (simp add: expired_state_def expired_entry_def)
qed

lemma expired_state_distinct: "distinct (map fst (db (expired_state n)))"
proof -
  have "map fst (db (expired_state n)) = map ttl_key [0..<n]"
    by (simp add: expired_state_def comp_def)
  moreover have "distinct (map ttl_key [0..<n])"
    using ttl_key_inj by (simp add: distinct_map inj_def inj_on_def)
  ultimately show ?thesis by simp
qed

lemma expired_state_sizes:
  "length (db (expired_state n)) = n" "length (heap (expired_state n)) = n"
  "\<forall>x\<in>set (heap (expired_state n)). val x = 0"
  by (auto simp: expired_state_def)

text \<open>
  Claim C4 on the code. The loop of \<^verbatim>\<open>process_timers\<close> ends an iteration with
  \<^verbatim>\<open>if (nworks++ >= k_max_works) break;\<close> which compares the counter before the increment:
  the loop leaves after the iteration that started with \<open>nworks = 2000\<close>, the 2001st. When the
  heap and the table are in sync, the keys of the table are distinct and more than
  \<open>k_max_works = 2000\<close> heap items have a deadline before now, one call returns with exactly
  2001 keys removed from the table and 2001 items removed from the heap: one more than the
  2000 of the claim.
\<close>

theorem timers_remove_2001:
  assumes "heap_synced (heap s) (db s)" and "distinct (map fst (db s))"
    and "\<forall>x\<in>set (heap s). val x < now_ms E"
    and "k_max_works < length (heap s)"
  shows "\<exists>s'. process_timers E s = Inr s' \<and>
           length (db s') + 2001 = length (db s) \<and>
           length (heap s') + 2001 = length (heap s)"
proof -
  define s0 where "s0 = s\<lparr>idle_list := evict_idle (now_ms E) (idle_list s)\<rparr>"
  have f: "heap s0 = heap s" "db s0 = db s" by (simp_all add: s0_def)
  have a: "k_max_works - 0 = k_max_works" by simp
  have b: "(0::nat) \<le> k_max_works" by simp
  have d: "k_max_works + 1 - 0 \<le> length (heap s0)" using assms(4) by (simp add: f)
  from ttl_loop_count[OF a b, of s0 E] assms(1,2,3) d
  have "\<exists>s'. ttl_loop E s0 0 = Inr s' \<and>
           length (db s') + (k_max_works + 1 - 0) = length (db s0) \<and>
           length (heap s') + (k_max_works + 1 - 0) = length (heap s0)"
    by (simp only: f)
  then show ?thesis
    by (simp add: process_timers_def s0_def k_max_works_def)
qed

text \<open>
  2005 keys with the deadline 0 ms at the time 1000 ms: one call leaves 4 of them.
\<close>

theorem timers_remove_2001_witness:
  "k_max_works = 2000 \<and> length (db (expired_state 2005)) = 2005 \<and>
   (\<exists>s'. process_timers env0 (expired_state 2005) = Inr s' \<and> length (db s') = 4 \<and>
          length (heap s') = 4)"
proof -
  have c: "\<forall>x\<in>set (heap (expired_state 2005)). val x < now_ms env0"
    using expired_state_sizes(3)[of 2005] by (simp add: env0_def)
  have d: "k_max_works < length (heap (expired_state 2005))"
    by (simp add: expired_state_sizes k_max_works_def)
  from timers_remove_2001[OF expired_state_synced expired_state_distinct c d]
  show ?thesis by (simp add: expired_state_sizes k_max_works_def)
qed

end
